theory Spec2Isabelle
  imports
    Main
    "HOL-Library.Char_ord"
    "HOL-Library.List_Lexorder"
    "HOL-Library.Product_Lexorder"
    "HOL-Library.Sublist"
    "HOL-Library.Multiset"
begin

section \<open>Datasette: the request-to-SQL pipeline\<close>

text \<open>
  A shallow embedding of \<^verbatim>\<open>datasette/utils.py\<close> and of the view classes of
  \<^verbatim>\<open>datasette/app.py\<close>.

  Python \<^verbatim>\<open>str\<close> values are modelled as \<^typ>\<open>string\<close>, the list of the bytes of
  their UTF-8 encoding. String comparison is lexicographic on these bytes, which is the
  code-point order of Python. The built-in functions \<^verbatim>\<open>str.strip\<close>,
  \<^verbatim>\<open>str.lower\<close>, \<^verbatim>\<open>str.isdigit\<close> and \<^verbatim>\<open>int\<close>, which depend on the Unicode
  tables of the interpreter, are parameters of the model.

  Exceptions are values of the type \<open>error\<close>; a function that may raise returns
  \<open>error + 'a\<close> with \<open>Inl\<close> for the exception.
\<close>

subsection \<open>Exceptions\<close>

datatype error =
    InvalidSql string
  | KeyError string
  | IndexError string
  | NotFound string
  | OperationalError string
  | ValueError string

subsection \<open>The built-in functions of Python\<close>

text \<open>
  The four built-in functions whose results depend on the Unicode tables of the
  interpreter, as functions on the UTF-8 bytes of strings: \<^verbatim>\<open>s.strip()\<close>,
  \<^verbatim>\<open>s.lower()\<close>, \<^verbatim>\<open>s.isdigit()\<close> and \<^verbatim>\<open>int(s)\<close>, the last with \<open>None\<close> when
  it raises \<^verbatim>\<open>ValueError\<close>. Every function of the model that calls one of them takes
  them as its first argument.
\<close>

record builtins =
  py_strip :: "string \<Rightarrow> string"
  py_lower :: "string \<Rightarrow> string"
  py_isdigit :: "string \<Rightarrow> bool"
  py_int :: "string \<Rightarrow> int option"

text \<open>\<^verbatim>\<open>s.startswith(p)\<close> is \<^term>\<open>prefix p s\<close>, and \<^verbatim>\<open>p in s\<close> is
  \<^term>\<open>sublist p s\<close>.\<close>

subsection \<open>The validator of custom SQL\<close>

definition validate_sql_select :: "builtins \<Rightarrow> string \<Rightarrow> error + unit" where
  "validate_sql_select py sql =
     (let sql' = py_lower py (py_strip py sql) in
      if \<not> prefix ''select '' sql' then Inl (InvalidSql ''Statement must begin with SELECT'')
      else if sublist ''pragma'' sql' then Inl (InvalidSql ''Statement may not contain PRAGMA'')
      else Inr ())"

text \<open>\<^verbatim>\<open>DatabaseView.custom_sql\<close>: the statement is validated and, when accepted,
  handed unchanged to \<^verbatim>\<open>execute\<close>, here the parameter \<open>exec\<close>.\<close>

definition custom_sql ::
  "builtins \<Rightarrow> (string \<Rightarrow> 'p \<Rightarrow> error + 'r) \<Rightarrow> string \<Rightarrow> 'p \<Rightarrow> error + 'r" where
  "custom_sql py exec sql params =
     (case validate_sql_select py sql of
        Inl e \<Rightarrow> Inl e
      | Inr _ \<Rightarrow> exec sql params)"

subsection \<open>Formatting and parsing of numbers\<close>

text \<open>\<^verbatim>\<open>'{}'.format(i)\<close> for a natural number: its decimal digits.\<close>

definition digit_char :: "nat \<Rightarrow> char" where
  "digit_char d = char_of (48 + d)"

function str_nat :: "nat \<Rightarrow> string" where
  "str_nat n = (if n < 10 then [digit_char n] else str_nat (n div 10) @ [digit_char (n mod 10)])"
  by pat_completeness auto
termination
  by (relation "measure id") auto

declare str_nat.simps [simp del]

definition is_digit :: "char \<Rightarrow> bool" where
  "is_digit c \<longleftrightarrow> CHR ''0'' \<le> c \<and> c \<le> CHR ''9''"

text \<open>The number that a string of the digits \<^verbatim>\<open>0\<close> to \<^verbatim>\<open>9\<close> denotes.\<close>

definition decimal :: "string \<Rightarrow> int" where
  "decimal s = foldl (\<lambda>a c. 10 * a + (int (of_char c) - 48)) 0 s"

subsection \<open>The built-in functions on Latin-1 strings\<close>

text \<open>
  An instance of the built-in functions for the examples. It is Python's on every string
  whose characters are below U+0100; \<open>latin1_strip\<close> is Python's on every string.
  Beyond U+0100 the instance does not know the upper-case letters and the digits of
  Unicode.

  The whitespace characters of \<^verbatim>\<open>str.strip\<close>, by the bytes of their encoding:
  U+0009 to U+000D, U+001C to U+0020; U+0085 and U+00A0; U+1680, U+2000 to U+200A,
  U+2028, U+2029, U+202F, U+205F and U+3000.
\<close>

definition is_space1 :: "char \<Rightarrow> bool" where
  "is_space1 a \<longleftrightarrow>
     (CHR 0x09 \<le> a \<and> a \<le> CHR 0x0D) \<or> (CHR 0x1C \<le> a \<and> a \<le> CHR 0x20)"

definition is_space2 :: "char \<Rightarrow> char \<Rightarrow> bool" where
  "is_space2 a b \<longleftrightarrow> a = CHR 0xC2 \<and> (b = CHR 0x85 \<or> b = CHR 0xA0)"

definition is_space3 :: "char \<Rightarrow> char \<Rightarrow> char \<Rightarrow> bool" where
  "is_space3 a b c \<longleftrightarrow>
     (a = CHR 0xE1 \<and> b = CHR 0x9A \<and> c = CHR 0x80) \<or>
     (a = CHR 0xE2 \<and> b = CHR 0x80 \<and>
        ((CHR 0x80 \<le> c \<and> c \<le> CHR 0x8A) \<or> c = CHR 0xA8 \<or> c = CHR 0xA9 \<or> c = CHR 0xAF)) \<or>
     (a = CHR 0xE2 \<and> b = CHR 0x81 \<and> c = CHR 0x9F) \<or>
     (a = CHR 0xE3 \<and> b = CHR 0x80 \<and> c = CHR 0x80)"

text \<open>\<^verbatim>\<open>s.lstrip()\<close>, and \<^verbatim>\<open>s.rstrip()\<close> on the reversed bytes of \<open>s\<close>.\<close>

fun latin1_lstrip :: "string \<Rightarrow> string" where
  "latin1_lstrip (a # b # c # s) =
     (if is_space1 a then latin1_lstrip (b # c # s)
      else if is_space2 a b then latin1_lstrip (c # s)
      else if is_space3 a b c then latin1_lstrip s
      else a # b # c # s)"
| "latin1_lstrip [a, b] =
     (if is_space1 a then latin1_lstrip [b]
      else if is_space2 a b then []
      else [a, b])"
| "latin1_lstrip [a] = (if is_space1 a then [] else [a])"
| "latin1_lstrip [] = []"

fun latin1_rstrip_rev :: "string \<Rightarrow> string" where
  "latin1_rstrip_rev (c # b # a # s) =
     (if is_space1 c then latin1_rstrip_rev (b # a # s)
      else if is_space2 b c then latin1_rstrip_rev (a # s)
      else if is_space3 a b c then latin1_rstrip_rev s
      else c # b # a # s)"
| "latin1_rstrip_rev [c, b] =
     (if is_space1 c then latin1_rstrip_rev [b]
      else if is_space2 b c then []
      else [c, b])"
| "latin1_rstrip_rev [c] = (if is_space1 c then [] else [c])"
| "latin1_rstrip_rev [] = []"

definition latin1_strip :: "string \<Rightarrow> string" where
  "latin1_strip s = rev (latin1_rstrip_rev (rev (latin1_lstrip s)))"

text \<open>\<^verbatim>\<open>s.lower()\<close>: the letters \<^verbatim>\<open>A\<close> to \<^verbatim>\<open>Z\<close>, and U+00C0 to U+00DE without
  the multiplication sign U+00D7, whose encodings are the byte C3 and a byte from 80 to
  9E.\<close>

definition lower_char :: "char \<Rightarrow> char" where
  "lower_char c =
     (if CHR ''A'' \<le> c \<and> c \<le> CHR ''Z'' then char_of (of_char c + (32::nat)) else c)"

fun latin1_lower :: "string \<Rightarrow> string" where
  "latin1_lower (a # b # s) =
     (if a = CHR 0xC3 \<and> CHR 0x80 \<le> b \<and> b \<le> CHR 0x9E \<and> b \<noteq> CHR 0x97
      then a # char_of (of_char b + (32::nat)) # latin1_lower s
      else lower_char a # latin1_lower (b # s))"
| "latin1_lower [a] = [lower_char a]"
| "latin1_lower [] = []"

text \<open>\<^verbatim>\<open>s.isdigit()\<close>: at least one character, and all of them digits; below U+0100
  the digits are \<^verbatim>\<open>0\<close> to \<^verbatim>\<open>9\<close> and the superscripts U+00B2, U+00B3 and U+00B9.\<close>

fun digits_only :: "string \<Rightarrow> bool" where
  "digits_only (a # b # s) =
     (if is_digit a then digits_only (b # s)
      else a = CHR 0xC2 \<and> (b = CHR 0xB2 \<or> b = CHR 0xB3 \<or> b = CHR 0xB9) \<and> digits_only s)"
| "digits_only [a] = is_digit a"
| "digits_only [] = True"

definition latin1_isdigit :: "string \<Rightarrow> bool" where
  "latin1_isdigit s \<longleftrightarrow> s \<noteq> [] \<and> digits_only s"

text \<open>\<^verbatim>\<open>int(s)\<close> for a string with \<^verbatim>\<open>s.isdigit()\<close>: its decimal value when all its
  characters are \<^verbatim>\<open>0\<close> to \<^verbatim>\<open>9\<close>; a superscript raises \<^verbatim>\<open>ValueError\<close>. (The
  limit on the number of digits of Python 3.11 is not part of the instance.)\<close>

definition latin1_int :: "string \<Rightarrow> int option" where
  "latin1_int s = (if s \<noteq> [] \<and> list_all is_digit s then Some (decimal s) else None)"

definition latin1 :: builtins where
  "latin1 =
     \<lparr>py_strip = latin1_strip, py_lower = latin1_lower, py_isdigit = latin1_isdigit,
      py_int = latin1_int\<rparr>"

subsection \<open>Splitting at the last occurrence of a separator\<close>

text \<open>
  \<^verbatim>\<open>s.rsplit(sep, 1)\<close> for a non-empty \<open>sep\<close>: the parts before and after the last
  occurrence of \<open>sep\<close> in \<open>s\<close>, and \<open>None\<close> when \<open>sep\<close> does not occur (Python
  then returns the one-element list \<^verbatim>\<open>[s]\<close>).
\<close>

fun rsplit1 :: "string \<Rightarrow> string \<Rightarrow> (string \<times> string) option" where
  "rsplit1 sep [] = None"
| "rsplit1 sep (c # cs) =
     (case rsplit1 sep cs of
        Some (a, b) \<Rightarrow> Some (c # a, b)
      | None \<Rightarrow> if prefix sep (c # cs) then Some ([], drop (length sep) (c # cs)) else None)"

subsection \<open>Dictionaries\<close>

text \<open>
  A Python \<^verbatim>\<open>dict\<close> is the list of its items in insertion order, with distinct keys.
  \<^verbatim>\<open>d[k] = v\<close> replaces the value of a key that is present and appends a new key.
\<close>

definition dict_set :: "('k \<times> 'v) list \<Rightarrow> 'k \<Rightarrow> 'v \<Rightarrow> ('k \<times> 'v) list" where
  "dict_set d k v =
     (if k \<in> fst ` set d then map (\<lambda>p. if fst p = k then (k, v) else p) d
      else d @ [(k, v)])"

subsection \<open>The WHERE-clause builder\<close>

text \<open>A bound parameter is a string or, after \<^verbatim>\<open>int(converted)\<close>, an integer.\<close>

datatype pval = PStr string | PInt int

type_synonym params = "(string \<times> pval) list"

definition dq :: char where
  "dq = CHR 0x22"

text \<open>The dictionary of templates: the lookup and the operator of its template
  \<^verbatim>\<open>"{}" op :{}\<close>.\<close>

definition templates :: "(string \<times> string) list" where
  "templates =
     [(''exact'', ''=''),
      (''contains'', ''like''),
      (''endswith'', ''like''),
      (''startswith'', ''like''),
      (''gt'', ''>''),
      (''gte'', ''>=''),
      (''lt'', ''<''),
      (''lte'', ''<=''),
      (''glob'', ''glob''),
      (''like'', ''like'')]"

text \<open>\<^verbatim>\<open>template.format(column, param_id)\<close> for the template with operator \<open>op\<close>.\<close>

definition format_template :: "string \<Rightarrow> string \<Rightarrow> string \<Rightarrow> string" where
  "format_template op column param_id = [dq] @ column @ [dq] @ '' '' @ op @ '' :'' @ param_id"

definition numeric_operators :: "string list" where
  "numeric_operators = [''gt'', ''gte'', ''lt'', ''lte'']"

definition value_convert :: "string \<Rightarrow> string \<Rightarrow> string" where
  "value_convert lookup s =
     (if lookup = ''contains'' then ''%'' @ s @ ''%''
      else if lookup = ''endswith'' then ''%'' @ s
      else if lookup = ''startswith'' then s @ ''%''
      else s)"

definition split_key :: "string \<Rightarrow> string \<times> string" where
  "split_key key =
     (if sublist ''__'' key
      then (case rsplit1 ''__'' key of Some cl \<Rightarrow> cl | None \<Rightarrow> (key, ''exact''))
      else (key, ''exact''))"

definition param_name :: "nat \<Rightarrow> string" where
  "param_name i = ''p'' @ str_nat i"

text \<open>
  The body of the loop over \<^verbatim>\<open>enumerate(sorted(args.items()))\<close>. The lookup of a
  missing template raises \<^verbatim>\<open>KeyError\<close>; \<^verbatim>\<open>int(converted)\<close> raises
  \<^verbatim>\<open>ValueError\<close>, which is given here the rejected string, when it rejects a string for
  which \<^verbatim>\<open>isdigit\<close> holds.
\<close>

fun bwc_loop ::
  "builtins \<Rightarrow> nat \<Rightarrow> (string \<times> string) list \<Rightarrow> string list \<times> params \<Rightarrow>
   error + (string list \<times> params)"
where
  "bwc_loop py i [] acc = Inr acc"
| "bwc_loop py i ((key, val) # rest) (sql_bits, params) =
     (let (column, lookup) = split_key key in
      case map_of templates lookup of
        None \<Rightarrow> Inl (KeyError lookup)
      | Some op \<Rightarrow>
          (let converted = value_convert lookup val in
           case (if lookup \<in> set numeric_operators \<and> py_isdigit py converted
                 then (case py_int py converted of
                         None \<Rightarrow> Inl (ValueError converted)
                       | Some n \<Rightarrow> Inr (PInt n))
                 else Inr (PStr converted)) of
             Inl e \<Rightarrow> Inl e
           | Inr converted' \<Rightarrow>
               (let param_id = param_name i
                in bwc_loop py (Suc i) rest
                     (sql_bits @ [format_template op column param_id],
                      dict_set params param_id converted'))))"

definition build_where_clauses ::
  "builtins \<Rightarrow> (string \<times> string) list \<Rightarrow> error + (string list \<times> params)" where
  "build_where_clauses py args = bwc_loop py 0 (sort args) ([], [])"

text \<open>
  \<^verbatim>\<open>BaseView.view_get\<close> wraps the call of \<^verbatim>\<open>data\<close> in
  \<^verbatim>\<open>except (sqlite3.OperationalError, InvalidSql)\<close>: these two become the payload
  with status 400, a result has status 200, every other exception leaves the handler.
\<close>

definition view_get_status :: "error + 'a \<Rightarrow> error + nat" where
  "view_get_status r =
     (case r of
        Inr _ \<Rightarrow> Inr 200
      | Inl (InvalidSql _) \<Rightarrow> Inr 400
      | Inl (OperationalError _) \<Rightarrow> Inr 400
      | Inl e \<Rightarrow> Inl e)"

subsection \<open>The codec of compound primary keys\<close>

text \<open>
  \<^verbatim>\<open>urllib.parse.quote_plus\<close> with its default arguments, on the bytes of the UTF-8
  encoding: a byte of the always-safe set (that of Python 3.7 and later, with
  \<^verbatim>\<open>~\<close>) is kept, a space becomes \<^verbatim>\<open>+\<close>, every other byte becomes
  \<^verbatim>\<open>%XX\<close> with two upper-case hexadecimal digits. \<open>hex_digit\<close> is used below 16
  only.
\<close>

definition always_safe :: "char \<Rightarrow> bool" where
  "always_safe c \<longleftrightarrow>
     c \<in> set ''ABCDEFGHIJKLMNOPQRSTUVWXYZabcdefghijklmnopqrstuvwxyz0123456789_.-~''"

definition hex_digit :: "nat \<Rightarrow> char" where
  "hex_digit d = ''0123456789ABCDEF'' ! d"

definition quote_byte :: "char \<Rightarrow> string" where
  "quote_byte c =
     (if always_safe c then [c]
      else if c = CHR '' '' then ''+''
      else [CHR ''%'', hex_digit (of_char c div 16), hex_digit (of_char c mod 16)])"

definition quote_plus :: "string \<Rightarrow> string" where
  "quote_plus s = concat (map quote_byte s)"

text \<open>
  \<^verbatim>\<open>urllib.parse.unquote_plus\<close>: every \<^verbatim>\<open>+\<close> becomes a space, then every
  \<^verbatim>\<open>%\<close> followed by two hexadecimal digits of either case becomes the byte they
  denote; any other \<^verbatim>\<open>%\<close> is kept. The result is the byte string that Python then
  decodes as UTF-8; on the bytes of a Python string the decoding changes nothing.
\<close>

definition unhex :: "char \<Rightarrow> nat option" where
  "unhex c =
     map_of
       [(CHR ''0'', 0), (CHR ''1'', 1), (CHR ''2'', 2), (CHR ''3'', 3), (CHR ''4'', 4),
        (CHR ''5'', 5), (CHR ''6'', 6), (CHR ''7'', 7), (CHR ''8'', 8), (CHR ''9'', 9),
        (CHR ''A'', 10), (CHR ''B'', 11), (CHR ''C'', 12), (CHR ''D'', 13), (CHR ''E'', 14),
        (CHR ''F'', 15),
        (CHR ''a'', 10), (CHR ''b'', 11), (CHR ''c'', 12), (CHR ''d'', 13), (CHR ''e'', 14),
        (CHR ''f'', 15)] c"

fun unquote :: "string \<Rightarrow> string" where
  "unquote (c # h1 # h2 # rest) =
     (if c = CHR ''%'' then
        (case (unhex h1, unhex h2) of
           (Some a, Some b) \<Rightarrow> char_of (16 * a + b) # unquote rest
         | _ \<Rightarrow> c # unquote (h1 # h2 # rest))
      else c # unquote (h1 # h2 # rest))"
| "unquote (c # cs) = c # unquote cs"
| "unquote [] = []"

definition unquote_plus :: "string \<Rightarrow> string" where
  "unquote_plus s = unquote (map (\<lambda>c. if c = CHR ''+'' then CHR '' '' else c) s)"

text \<open>\<^verbatim>\<open>s.split(sep)\<close> for a separator of one character, and \<^verbatim>\<open>sep.join(bits)\<close>.\<close>

fun split_on :: "char \<Rightarrow> string \<Rightarrow> string list" where
  "split_on sep [] = [[]]"
| "split_on sep (c # cs) =
     (if c = sep then [] # split_on sep cs
      else (case split_on sep cs of
              w # ws \<Rightarrow> (c # w) # ws
            | [] \<Rightarrow> [[c]]))"

fun join :: "string \<Rightarrow> string list \<Rightarrow> string" where
  "join sep [] = []"
| "join sep [b] = b"
| "join sep (b # bs) = b @ sep @ join sep bs"

definition compound_pks_from_path :: "string \<Rightarrow> string list" where
  "compound_pks_from_path path = map unquote_plus (split_on CHR '','' path)"

text \<open>
  A row of \<^verbatim>\<open>sqlite3.Row\<close> maps the names of its columns to values; indexing with a
  name that is no column raises \<^verbatim>\<open>IndexError\<close>. The values are of any type \<open>'v\<close>, and
  Python's \<^verbatim>\<open>str\<close> on them is the parameter \<open>str\<close>.
\<close>

type_synonym 'v row = "string \<rightharpoonup> 'v"

definition row_get :: "'v row \<Rightarrow> string \<Rightarrow> error + 'v" where
  "row_get row k =
     (case row k of None \<Rightarrow> Inl (IndexError ''No item with that key'') | Some v \<Rightarrow> Inr v)"

fun pk_bits :: "('v \<Rightarrow> string) \<Rightarrow> 'v row \<Rightarrow> string list \<Rightarrow> error + string list" where
  "pk_bits str row [] = Inr []"
| "pk_bits str row (pk # pks) =
     (case row_get row pk of
        Inl e \<Rightarrow> Inl e
      | Inr v \<Rightarrow>
          (case pk_bits str row pks of
             Inl e \<Rightarrow> Inl e
           | Inr bits \<Rightarrow> Inr (quote_plus (str v) # bits)))"

definition path_from_row_pks ::
  "('v \<Rightarrow> string) \<Rightarrow> 'v row \<Rightarrow> string list \<Rightarrow> bool \<Rightarrow> error + string" where
  "path_from_row_pks str row pks use_rowid =
     (if use_rowid then
        (case row_get row ''rowid'' of
           Inl e \<Rightarrow> Inl e
         | Inr v \<Rightarrow> Inr (quote_plus (str v)))
      else
        (case pk_bits str row pks of
           Inl e \<Rightarrow> Inl e
         | Inr bits \<Rightarrow> Inr (join '','' bits)))"

subsection \<open>Resolving the database of a request\<close>

text \<open>An entry of \<^verbatim>\<open>Datasette.metadata()\<close> with its keys \<^verbatim>\<open>hash\<close>,
  \<^verbatim>\<open>file\<close> and \<^verbatim>\<open>tables\<close>, and the dictionary of all entries.\<close>

record db_info =
  db_hash :: string
  db_file :: string
  db_tables :: "(string \<times> nat) list"

type_synonym catalog = "string \<rightharpoonup> db_info"

text \<open>The keyword arguments that the routes pass to a view; a key that the route does
  not bind is absent.\<close>

record kwargs =
  kw_table :: "string option"
  kw_as_json :: "string option"
  kw_as_db :: "string option"
  kw_pk_path :: "string option"

record request =
  path :: string
  query_string :: string

text \<open>
  \<^verbatim>\<open>BaseView.resolve_db_name\<close> returns the name, the expected hash and the path to
  redirect to, or \<open>None\<close> for the latter when the hash of the request is the expected
  one.
\<close>

definition resolve_db_name ::
  "catalog \<Rightarrow> string \<Rightarrow> kwargs \<Rightarrow> error + (string \<times> string \<times> string option)" where
  "resolve_db_name databases db_name kw =
     (let (name, hash') =
        (if sublist ''-'' db_name then
           (case rsplit1 ''-'' db_name of
              Some (n, h) \<Rightarrow> if databases n = None then (db_name, None) else (n, Some h)
            | None \<Rightarrow> (db_name, None))
         else (db_name, None))
      in case databases name of
           None \<Rightarrow> Inl (NotFound (''Database not found: '' @ name))
         | Some info \<Rightarrow>
             (let expected = take 7 (db_hash info) in
              if Some expected \<noteq> hash' then
                (let r0 = ''/'' @ name @ ''-'' @ expected;
                     r1 = (case kw_table kw of Some t \<Rightarrow> r0 @ ''/'' @ t | None \<Rightarrow> r0);
                     r2 = (case kw_as_json kw of Some j \<Rightarrow> r1 @ j | None \<Rightarrow> r1);
                     r3 = (case kw_as_db kw of Some d \<Rightarrow> r2 @ d | None \<Rightarrow> r2)
                 in Inr (name, expected, Some r3))
              else Inr (name, expected, None)))"

text \<open>
  \<^verbatim>\<open>BaseView.redirect\<close>: the response of \<^verbatim>\<open>response.redirect(path)\<close>, which has the
  status 302 and the given target, with the header \<^verbatim>\<open>Link\<close> added.
\<close>

record response =
  status :: nat
  location :: string
  link :: string

definition redirect :: "request \<Rightarrow> string \<Rightarrow> response" where
  "redirect req p =
     (let p' = (if query_string req \<noteq> [] then p @ ''?'' @ query_string req else p)
      in \<lparr>status = 302, location = p', link = ''<'' @ p' @ ''>; rel=preload''\<rparr>)"

text \<open>\<^verbatim>\<open>BaseView.get\<close> either redirects or calls \<^verbatim>\<open>view_get\<close> with the name, the
  hash and the keyword arguments.\<close>

datatype outcome = Redirected response | Dispatched string string kwargs

definition get :: "catalog \<Rightarrow> request \<Rightarrow> string \<Rightarrow> kwargs \<Rightarrow> error + outcome" where
  "get databases req db_name kw =
     (case resolve_db_name databases db_name kw of
        Inl e \<Rightarrow> Inl e
      | Inr (name, hash', should_redirect) \<Rightarrow>
          (case should_redirect of
             Some p \<Rightarrow>
               if p \<noteq> [] then Inr (Redirected (redirect req p))
               else Inr (Dispatched name hash' kw)
           | None \<Rightarrow> Inr (Dispatched name hash' kw)))"

subsection \<open>The time limit of a statement\<close>

text \<open>
  A connection, as far as \<^verbatim>\<open>sqlite_timelimit\<close> changes it: the progress handler that
  \<^verbatim>\<open>set_progress_handler\<close> installed last, or \<open>None\<close>. The handler is given by its
  deadline and by the number \<open>n\<close> of instructions between two calls. Times are in
  milliseconds.
\<close>

record progress_handler =
  deadline :: int
  instructions :: nat

record conn =
  handler :: "progress_handler option"

definition SQL_TIME_LIMIT_MS :: int where
  "SQL_TIME_LIMIT_MS = 1000"

text \<open>The two parts of the generator \<^verbatim>\<open>sqlite_timelimit\<close>: the statements before its
  \<^verbatim>\<open>yield\<close> and the statement after it.\<close>

definition sqlite_timelimit_before :: "int \<Rightarrow> int \<Rightarrow> conn \<Rightarrow> conn" where
  "sqlite_timelimit_before now ms c =
     (let deadline' = now + ms;
          n = (if ms < 50 then 1 else 1000)
      in c\<lparr>handler := Some \<lparr>deadline = deadline', instructions = n\<rparr>\<rparr>)"

definition sqlite_timelimit_after :: "conn \<Rightarrow> conn" where
  "sqlite_timelimit_after c = c\<lparr>handler := None\<rparr>"

text \<open>
  A \<^verbatim>\<open>with\<close> statement over a function decorated with \<^verbatim>\<open>@contextmanager\<close> whose
  \<^verbatim>\<open>yield\<close> stands outside of any \<^verbatim>\<open>try\<close>: the part before the \<^verbatim>\<open>yield\<close> runs,
  then the body. When the body finishes, the part after the \<^verbatim>\<open>yield\<close> runs. When the
  body raises, the exception is thrown into the generator at the \<^verbatim>\<open>yield\<close>, where
  nothing handles it: the generator ends there and the exception leaves the \<^verbatim>\<open>with\<close>
  statement.
\<close>

definition with_contextmanager ::
  "('s \<Rightarrow> 's) \<Rightarrow> ('s \<Rightarrow> 's) \<Rightarrow> ('s \<Rightarrow> (error + 'a) \<times> 's) \<Rightarrow> 's \<Rightarrow> (error + 'a) \<times> 's" where
  "with_contextmanager pre post body s =
     (case body (pre s) of
        (Inl e, s') \<Rightarrow> (Inl e, s')
      | (Inr v, s') \<Rightarrow> (Inr v, post s'))"

text \<open>
  \<^verbatim>\<open>BaseView.execute\<close> on the connection of the worker. The engine is the parameter
  \<open>engine\<close>: \<^verbatim>\<open>conn.execute(sql, params)\<close> returns rows or raises, and it sees the
  connection with its handler.
\<close>

definition execute ::
  "(string \<Rightarrow> 'p \<Rightarrow> conn \<Rightarrow> error + 'r) \<Rightarrow> int \<Rightarrow> string \<Rightarrow> 'p \<Rightarrow> conn \<Rightarrow> (error + 'r) \<times> conn" where
  "execute engine now sql params c =
     with_contextmanager (sqlite_timelimit_before now SQL_TIME_LIMIT_MS) sqlite_timelimit_after
       (\<lambda>c'. (engine sql params c', c')) c"

subsection \<open>The table view\<close>

text \<open>
  \<^verbatim>\<open>request.args\<close> maps every key of the query string to the list of its values. The
  loop of \<^verbatim>\<open>TableView.data\<close> over its items; \<^verbatim>\<open>value[0]\<close> raises \<^verbatim>\<open>IndexError\<close> on
  an empty list.
\<close>

fun partition_loop ::
  "(string \<times> string list) list \<Rightarrow> (string \<times> string) list \<times> (string \<times> string) list \<Rightarrow>
   error + ((string \<times> string) list \<times> (string \<times> string) list)" where
  "partition_loop [] acc = Inr acc"
| "partition_loop ((key, val) # rest) (special_args, other_args) =
     (case val of
        [] \<Rightarrow> Inl (IndexError ''list index out of range'')
      | v0 # _ \<Rightarrow>
          if prefix ''_'' key \<and> \<not> sublist ''__'' key
          then partition_loop rest (dict_set special_args key v0, other_args)
          else partition_loop rest (special_args, dict_set other_args key v0))"

definition partition_args ::
  "(string \<times> string list) list \<Rightarrow>
   error + ((string \<times> string) list \<times> (string \<times> string) list)" where
  "partition_args args = partition_loop args ([], [])"

text \<open>The loop over \<^verbatim>\<open>zip(pks, pk_values)\<close> that appends one comparison for each
  primary key.\<close>

fun after_loop ::
  "nat \<Rightarrow> (string \<times> string) list \<Rightarrow> string list \<times> params \<Rightarrow> string list \<times> params" where
  "after_loop param_counter [] acc = acc"
| "after_loop param_counter ((pk, val) # rest) (where_clauses, params) =
     after_loop (Suc param_counter) rest
       (where_clauses @ [[dq] @ pk @ [dq] @ '' > :p'' @ str_nat param_counter],
        dict_set params (param_name param_counter) (PStr val))"

text \<open>The statements under \<^verbatim>\<open>if after:\<close>; an absent or empty \<^verbatim>\<open>_after\<close> changes
  nothing.\<close>

definition apply_after ::
  "string list \<Rightarrow> bool \<Rightarrow> string option \<Rightarrow> string list \<times> params \<Rightarrow> string list \<times> params" where
  "apply_after pks use_rowid after wp =
     (case wp of (where_clauses, params) \<Rightarrow>
        (case after of
           None \<Rightarrow> (where_clauses, params)
         | Some a \<Rightarrow>
             if a = [] then (where_clauses, params)
             else if use_rowid then
               (where_clauses @ [''rowid > :p'' @ str_nat (length params)],
                dict_set params (param_name (length params)) (PStr a))
             else
               (let pk_values = compound_pks_from_path a in
                if length pk_values = length pks
                then after_loop (length params) (zip pks pk_values) (where_clauses, params)
                else (where_clauses, params))))"

text \<open>The SQL text of the table view.\<close>

definition table_sql ::
  "string \<Rightarrow> string \<Rightarrow> string list \<Rightarrow> string \<Rightarrow> nat \<Rightarrow> string" where
  "table_sql select table where_clauses order_by page_size =
     (let where_clause =
            (if where_clauses \<noteq> [] then ''where '' @ join '' and '' where_clauses @ '' '' else []);
          order_by' = (if order_by \<noteq> [] then ''order by '' @ order_by @ '' '' else [])
      in ''select '' @ select @ '' from '' @ [dq] @ table @ [dq] @ '' '' @ where_clause @
         order_by' @ ''limit '' @ str_nat (page_size + 1))"

text \<open>
  The part of \<^verbatim>\<open>TableView.data\<close> from the request arguments to the statement and its
  parameters, for a table with the primary keys \<open>pks\<close>.
\<close>

definition table_query ::
  "builtins \<Rightarrow> string \<Rightarrow> string list \<Rightarrow> bool \<Rightarrow> nat \<Rightarrow> (string \<times> string list) list \<Rightarrow>
   error + (string \<times> params)" where
  "table_query py table pks is_view page_size args =
     (let use_rowid = (pks = [] \<and> \<not> is_view);
          select = (if use_rowid then ''rowid, *'' else ''*'');
          order_by = (if is_view then [] else if use_rowid then ''rowid'' else join '', '' pks)
      in case partition_args args of
           Inl e \<Rightarrow> Inl e
         | Inr (special_args, other_args) \<Rightarrow>
             (case (if other_args \<noteq> [] then build_where_clauses py other_args
                    else Inr ([], [])) of
                Inl e \<Rightarrow> Inl e
              | Inr wp \<Rightarrow>
                  (case apply_after pks use_rowid (map_of special_args ''_after'') wp of
                     (where_clauses, params) \<Rightarrow>
                       Inr (table_sql select table where_clauses order_by page_size, params))))"

text \<open>\<^verbatim>\<open>rows[-2]\<close>, which raises \<^verbatim>\<open>IndexError\<close> on fewer than two rows.\<close>

definition second_to_last :: "'a list \<Rightarrow> error + 'a" where
  "second_to_last rows =
     (if 2 \<le> length rows then Inr (rows ! (length rows - 2))
      else Inl (IndexError ''list index out of range''))"

text \<open>
  The part of \<^verbatim>\<open>TableView.data\<close> after the statement has run: the rows of the response
  and the cursor \<^verbatim>\<open>after\<close> of the next page, from the fetched rows.
\<close>

definition table_page ::
  "('v \<Rightarrow> string) \<Rightarrow> nat \<Rightarrow> string list \<Rightarrow> bool \<Rightarrow> 'v row list \<Rightarrow>
   error + ('v row list \<times> string option)" where
  "table_page str page_size pks use_rowid rows =
     (if length rows > page_size then
        (case second_to_last rows of
           Inl e \<Rightarrow> Inl e
         | Inr r \<Rightarrow>
             (case path_from_row_pks str r pks use_rowid of
                Inl e \<Rightarrow> Inl e
              | Inr after \<Rightarrow> Inr (take page_size rows, Some after)))
      else Inr (take page_size rows, None))"

subsection \<open>Notions used in the statements\<close>

text \<open>The list of lookups named by the specification.\<close>

definition known_lookups :: "string list" where
  "known_lookups =
     [''exact'', ''contains'', ''startswith'', ''endswith'', ''gt'', ''gte'', ''lt'', ''lte'',
      ''glob'', ''like'']"

text \<open>
  The specification's split of a filter key: at the last occurrence of \<^verbatim>\<open>__\<close>, which
  is an occurrence such that no occurrence starts further right; a key without
  \<^verbatim>\<open>__\<close> is a column with the lookup \<^verbatim>\<open>exact\<close>.
\<close>

definition is_split :: "string \<Rightarrow> string \<Rightarrow> string \<Rightarrow> bool" where
  "is_split key column lookup \<longleftrightarrow>
     (if \<exists>a b. key = a @ ''__'' @ b
      then key = column @ ''__'' @ lookup \<and>
           (\<forall>a b. key = a @ ''__'' @ b \<longrightarrow> length a \<le> length column)
      else column = key \<and> lookup = ''exact'')"

text \<open>The operator of a lookup in the specification's table of templates.\<close>

definition spec_operator :: "string \<Rightarrow> string" where
  "spec_operator lookup =
     (if lookup = ''exact'' then ''=''
      else if lookup = ''gt'' then ''>''
      else if lookup = ''gte'' then ''>=''
      else if lookup = ''lt'' then ''<''
      else if lookup = ''lte'' then ''<=''
      else if lookup = ''glob'' then ''glob''
      else ''like'')"

text \<open>
  The parameter bound for a value: the value wrapped with \<^verbatim>\<open>%\<close> for contains,
  startswith and endswith; for gt, gte, lt and lte the integer \<^verbatim>\<open>int(v)\<close> when
  \<^verbatim>\<open>v.isdigit()\<close> holds, and the value itself when not; the value itself for the other
  lookups. There is none when \<^verbatim>\<open>int(v)\<close> raises.
\<close>

definition spec_value :: "builtins \<Rightarrow> string \<Rightarrow> string \<Rightarrow> pval option" where
  "spec_value py lookup v =
     (if lookup = ''contains'' then Some (PStr (''%'' @ v @ ''%''))
      else if lookup = ''startswith'' then Some (PStr (v @ ''%''))
      else if lookup = ''endswith'' then Some (PStr (''%'' @ v))
      else if lookup \<in> {''gt'', ''gte'', ''lt'', ''lte''} \<and> py_isdigit py v
           then map_option PInt (py_int py v)
      else Some (PStr v))"

text \<open>The zero-based rank of a key among the keys of a mapping.\<close>

definition rank :: "string \<Rightarrow> (string \<times> 'v) list \<Rightarrow> nat" where
  "rank key args = card {k \<in> fst ` set args. k < key}"

text \<open>
  The specification's reading of a slug: when the slug ends in a hyphen and a part without
  hyphen, and what precedes this hyphen is a name of the catalog, these are the name and
  the provided hash; otherwise the whole slug is the name and no hash is provided.
\<close>

definition slug_parts :: "catalog \<Rightarrow> string \<Rightarrow> string \<Rightarrow> string option \<Rightarrow> bool" where
  "slug_parts databases slug name provided \<longleftrightarrow>
     (if \<exists>c h. slug = c @ ''-'' @ h \<and> CHR ''-'' \<notin> set h \<and> c \<in> dom databases
      then \<exists>h. slug = name @ ''-'' @ h \<and> CHR ''-'' \<notin> set h \<and> provided = Some h
      else name = slug \<and> provided = None)"

text \<open>The canonical path of a request: name, hyphen, the first seven characters of the
  digest, then the segments of the request and its query string.\<close>

definition canonical_target :: "string \<Rightarrow> db_info \<Rightarrow> kwargs \<Rightarrow> request \<Rightarrow> string" where
  "canonical_target name info kw req =
     ''/'' @ name @ ''-'' @ take 7 (db_hash info) @
     (case kw_table kw of Some t \<Rightarrow> ''/'' @ t | None \<Rightarrow> []) @
     (case kw_as_json kw of Some j \<Rightarrow> j | None \<Rightarrow> []) @
     (case kw_as_db kw of Some d \<Rightarrow> d | None \<Rightarrow> []) @
     (if query_string req = [] then [] else ''?'' @ query_string req)"

text \<open>
  The meaning of the comparison \<^verbatim>\<open>"pk" > :p\<close> for a row of text columns, with the
  binary collation: the value of the column is greater than the string bound to the
  parameter. A comparison is given by its column and the name of its parameter, and
  \<open>render_gt\<close> is its SQL text.
\<close>

datatype comparison = Gt string string

fun render_gt :: "comparison \<Rightarrow> string" where
  "render_gt (Gt column p) = [dq] @ column @ [dq] @ '' > :'' @ p"

fun sat_gt :: "params \<Rightarrow> string row \<Rightarrow> comparison \<Rightarrow> bool" where
  "sat_gt params row (Gt column p) =
     (case (row column, map_of params p) of
        (Some x, Some (PStr v)) \<Rightarrow> v < x
      | _ \<Rightarrow> False)"

text \<open>The clauses of a WHERE are joined with \<^verbatim>\<open>and\<close>: a row satisfies them when it
  satisfies each.\<close>

definition sat_all :: "params \<Rightarrow> string row \<Rightarrow> comparison list \<Rightarrow> bool" where
  "sat_all params row cs \<longleftrightarrow> list_all (sat_gt params row) cs"

text \<open>The tuple of the primary key of a row; tuples of equal length are compared
  lexicographically by the order of lists.\<close>

definition pk_tuple :: "string list \<Rightarrow> string row \<Rightarrow> string list" where
  "pk_tuple pks row = map (\<lambda>pk. case row pk of Some x \<Rightarrow> x | None \<Rightarrow> []) pks"

text \<open>A key is special when it starts with \<^verbatim>\<open>_\<close> and contains no \<^verbatim>\<open>__\<close>.\<close>

definition is_special :: "string \<Rightarrow> bool" where
  "is_special key \<longleftrightarrow> (\<exists>r. key = ''_'' @ r) \<and> \<not> (\<exists>a b. key = a @ ''__'' @ b)"

text \<open>The request arguments with only the first value of every key.\<close>

definition first_values :: "(string \<times> string list) list \<Rightarrow> (string \<times> string list) list" where
  "first_values args = map (\<lambda>(k, vs). (k, take 1 vs)) args"

text \<open>The special keys of a request, each with its first value, and the other keys, each
  with its first value.\<close>

definition special_first :: "(string \<times> string list) list \<Rightarrow> (string \<times> string) list" where
  "special_first args = [(k, hd vs). (k, vs) \<leftarrow> args, is_special k]"

definition filter_first :: "(string \<times> string list) list \<Rightarrow> (string \<times> string) list" where
  "filter_first args = [(k, hd vs). (k, vs) \<leftarrow> args, \<not> is_special k]"

text \<open>The clause and the parameter that one pass of the loop adds for a key whose lookup
  has a template.\<close>

definition clause_of :: "nat \<Rightarrow> string \<Rightarrow> string" where
  "clause_of i key =
     (case split_key key of
        (column, lookup) \<Rightarrow>
          (case map_of templates lookup of
             Some op \<Rightarrow> format_template op column (param_name i)
           | None \<Rightarrow> []))"

definition converted_of :: "builtins \<Rightarrow> string \<Rightarrow> string \<Rightarrow> error + pval" where
  "converted_of py key v =
     (case split_key key of
        (column, lookup) \<Rightarrow>
          (let converted = value_convert lookup v in
           if lookup \<in> set numeric_operators \<and> py_isdigit py converted
           then (case py_int py converted of
                   None \<Rightarrow> Inl (ValueError converted)
                 | Some n \<Rightarrow> Inr (PInt n))
           else Inr (PStr converted)))"

definition lookup_known :: "string \<Rightarrow> bool" where
  "lookup_known key \<longleftrightarrow> map_of templates (snd (split_key key)) \<noteq> None"

text \<open>The outcome of one pass of the loop for an item: the parameter that it binds, or
  the exception that it raises.\<close>

definition item_result :: "builtins \<Rightarrow> string \<times> string \<Rightarrow> error + pval" where
  "item_result py kv =
     (if lookup_known (fst kv) then converted_of py (fst kv) (snd kv)
      else Inl (KeyError (snd (split_key (fst kv)))))"

definition conv :: "builtins \<Rightarrow> string \<times> string \<Rightarrow> pval" where
  "conv py kv = (case item_result py kv of Inr p \<Rightarrow> p | Inl _ \<Rightarrow> PStr [])"

section \<open>Properties\<close>

subsection \<open>The validator\<close>

text \<open>
  C5. A custom SQL string is accepted, and then passed unchanged to the engine, if and
  only if its trimmed and lowercased form is \<^verbatim>\<open>select \<close> followed by some rest and
  cannot be cut into a part before \<^verbatim>\<open>pragma\<close>, the word \<^verbatim>\<open>pragma\<close>, and a part
  after it; every other string is rejected with \<^verbatim>\<open>InvalidSql\<close>, and the engine is
  not called. Trimming and lowercasing are \<^verbatim>\<open>str.strip\<close> and \<^verbatim>\<open>str.lower\<close>.
\<close>

theorem validate_sql_select_accepts_iff:
  "(validate_sql_select py sql = Inr () \<longleftrightarrow>
      (\<exists>rest. py_lower py (py_strip py sql) = ''select '' @ rest) \<and>
      \<not> (\<exists>before after. py_lower py (py_strip py sql) = before @ ''pragma'' @ after)) \<and>
   (validate_sql_select py sql \<noteq> Inr () \<longrightarrow>
      (\<exists>msg. validate_sql_select py sql = Inl (InvalidSql msg) \<and>
             custom_sql py exec sql params = Inl (InvalidSql msg))) \<and>
   (validate_sql_select py sql = Inr () \<longrightarrow> custom_sql py exec sql params = exec sql params)"
proof -
  have p: "prefix ''select '' s \<longleftrightarrow> (\<exists>rest. s = ''select '' @ rest)" for s :: string
    by (auto simp: prefix_def)
  have q: "sublist ''pragma'' s \<longleftrightarrow> (\<exists>before after. s = before @ ''pragma'' @ after)"
    for s :: string
    by (simp add: sublist_def)
  show ?thesis
    unfolding custom_sql_def validate_sql_select_def Let_def p q
    by (auto split: sum.splits)
qed

theorem validate_sql_select_accepts_iff_witness:
  "validate_sql_select latin1 ''  SELECT * FROM t '' = Inr () \<and>
   custom_sql latin1 (\<lambda>s p. Inr (s, p)) ''  SELECT * FROM t '' (0::nat) =
     Inr (''  SELECT * FROM t '', 0) \<and>
   validate_sql_select latin1 ([CHR 0xC2, CHR 0xA0] @ ''select 1'') = Inr () \<and>
   validate_sql_select latin1 (''select '' @ [CHR 0xE3, CHR 0x80, CHR 0x80]) =
     Inl (InvalidSql ''Statement must begin with SELECT'') \<and>
   validate_sql_select latin1 ''select * from pragma_table_list'' =
     Inl (InvalidSql ''Statement may not contain PRAGMA'') \<and>
   custom_sql latin1 (\<lambda>s p. Inr (s, p)) ''select * from pragma_table_list'' (0::nat) =
     Inl (InvalidSql ''Statement may not contain PRAGMA'')"
proof -
  have a: "validate_sql_select latin1 ''  SELECT * FROM t '' = Inr ()"
    by code_simp
  have b: "validate_sql_select latin1 ''select * from pragma_table_list'' =
     Inl (InvalidSql ''Statement may not contain PRAGMA'')"
    by code_simp
  have c: "validate_sql_select latin1 ([CHR 0xC2, CHR 0xA0] @ ''select 1'') = Inr ()"
    by code_simp
  have d: "validate_sql_select latin1 (''select '' @ [CHR 0xE3, CHR 0x80, CHR 0x80]) =
     Inl (InvalidSql ''Statement must begin with SELECT'')"
    by code_simp
  show ?thesis
    using validate_sql_select_accepts_iff
            [of latin1 "''  SELECT * FROM t ''" "\<lambda>s p. Inr (s, p)" "0::nat"]
          validate_sql_select_accepts_iff
            [of latin1 "''select * from pragma_table_list''" "\<lambda>s p. Inr (s, p)" "0::nat"]
          a b c d
    by auto
qed

subsection \<open>Auxiliary facts\<close>

lemma rsplit1_None_iff:
  assumes "sep \<noteq> []"
  shows "rsplit1 sep s = None \<longleftrightarrow> \<not> sublist sep s"
  using assms by (induction s) (auto simp: sublist_Cons_right split: option.splits)

lemma rsplit1_Some_append:
  "rsplit1 sep s = Some (a, b) \<Longrightarrow> s = a @ sep @ b"
proof (induction s arbitrary: a b)
  case Nil
  then show ?case by simp
next
  case (Cons c cs)
  show ?case
  proof (cases "rsplit1 sep cs")
    case None
    with Cons.prems have p: "prefix sep (c # cs)" and a: "a = []" and b: "b = drop (length sep) (c # cs)"
      by (auto split: if_splits)
    from p obtain r where r: "c # cs = sep @ r" by (auto simp: prefix_def)
    then show ?thesis using a b by simp
  next
    case (Some ab)
    obtain a' b' where ab: "ab = (a', b')" by (cases ab)
    with Some Cons.prems have "a = c # a'" "b = b'" by auto
    with Cons.IH[of a' b'] Some ab show ?thesis by simp
  qed
qed

lemma rsplit1_last:
  assumes "sep \<noteq> []" and "\<not> sublist sep (tl (sep @ b))"
  shows "rsplit1 sep (a @ sep @ b) = Some (a, b)"
proof (induction a)
  case Nil
  obtain c sep' where sep: "sep = c # sep'" using assms(1) by (cases sep) auto
  have "rsplit1 sep (sep' @ b) = None"
    using assms sep by (simp add: rsplit1_None_iff)
  then show ?case using sep by simp
next
  case (Cons x a)
  then show ?case by simp
qed

lemma rsplit1_Some_last:
  assumes "sep \<noteq> []" and "rsplit1 sep s = Some (a, b)"
  shows "\<not> sublist sep (tl (sep @ b))"
  using assms(2)
proof (induction s arbitrary: a b)
  case Nil
  then show ?case by simp
next
  case (Cons c cs)
  show ?case
  proof (cases "rsplit1 sep cs")
    case None
    with Cons.prems have p: "prefix sep (c # cs)" and b: "b = drop (length sep) (c # cs)"
      by (auto split: if_splits)
    from p obtain r where r: "c # cs = sep @ r" by (auto simp: prefix_def)
    have "cs = tl (sep @ b)" using r b by (metis append_eq_conv_conj list.sel(3))
    moreover have "\<not> sublist sep cs" using None assms(1) by (simp add: rsplit1_None_iff)
    ultimately show ?thesis by simp
  next
    case (Some ab)
    obtain a' b' where ab: "ab = (a', b')" by (cases ab)
    with Some Cons.prems have "b = b'" by auto
    with Cons.IH[of a' b'] Some ab show ?thesis by simp
  qed
qed

lemma of_char_digit_char: "d < 10 \<Longrightarrow> of_char (digit_char d) = (48 + d :: nat)"
  by (simp add: digit_char_def)

lemma decimal_snoc: "decimal (s @ [c]) = 10 * decimal s + (int (of_char c) - 48)"
  by (simp add: decimal_def)

lemma decimal_str_nat: "decimal (str_nat n) = int n"
proof (induction n rule: str_nat.induct)
  case (1 n)
  show ?case
  proof (cases "n < 10")
    case True
    then show ?thesis
      by (subst str_nat.simps) (simp add: decimal_def of_char_digit_char)
  next
    case False
    with 1 have ih: "decimal (str_nat (n div 10)) = int (n div 10)" by simp
    have "str_nat n = str_nat (n div 10) @ [digit_char (n mod 10)]"
      using False by (subst str_nat.simps) simp
    moreover have "10 * int (n div 10) + int (n mod 10) = int n"
      by presburger
    ultimately show ?thesis
      by (simp add: decimal_snoc ih of_char_digit_char)
  qed
qed

lemma str_nat_inj: "str_nat m = str_nat n \<Longrightarrow> m = n"
  by (metis decimal_str_nat of_nat_eq_iff)

lemma param_name_inj [simp]: "param_name m = param_name n \<longleftrightarrow> m = n"
  by (auto simp: param_name_def dest: str_nat_inj)

lemma map_of_replace:
  "map_of (map (\<lambda>p. if fst p = k then (k, v) else p) d) x =
     (if x = k then (if k \<in> fst ` set d then Some v else None) else map_of d x)"
proof (induction d)
  case Nil
  then show ?case by simp
next
  case (Cons p d)
  obtain a b where p: "p = (a, b)" by (cases p)
  show ?case
  proof (cases "x = k")
    case True
    then show ?thesis using Cons.IH by (auto simp: p)
  next
    case False
    then show ?thesis using Cons.IH by (auto simp: p)
  qed
qed

lemma map_of_dict_set: "map_of (dict_set d k v) = (map_of d)(k \<mapsto> v)"
proof (cases "k \<in> fst ` set d")
  case True
  then show ?thesis
    by (simp add: dict_set_def fun_eq_iff map_of_replace)
next
  case False
  then have n: "map_of d k = None" by (simp add: map_of_eq_None_iff)
  have "map_of (d @ [(k, v)]) x = ((map_of d)(k \<mapsto> v)) x" for x
    using n by (cases "x = k") (auto simp: map_add_def split: option.splits)
  then show ?thesis using False
    by (simp add: dict_set_def fun_eq_iff del: map_of_append)
qed

lemma keys_dict_set:
  "map fst (dict_set d k v) = (if k \<in> fst ` set d then map fst d else map fst d @ [k])"
proof -
  have "map fst (map (\<lambda>p. if fst p = k then (k, v) else p) d) = map fst d"
    by (induction d) simp_all
  then show ?thesis by (simp add: dict_set_def)
qed



lemma bwc_loop_step:
  "bwc_loop py i (kv # rest) (bits, ps) =
     (case item_result py kv of
        Inl e \<Rightarrow> Inl e
      | Inr p \<Rightarrow>
          bwc_loop py (Suc i) rest (bits @ [clause_of i (fst kv)], dict_set ps (param_name i) p))"
proof -
  obtain k v where kv: "kv = (k, v)" by (cases kv)
  obtain c l where cl: "split_key k = (c, l)" by (cases "split_key k")
  show ?thesis
  proof (cases "map_of templates l")
    case None
    then show ?thesis by (simp add: kv cl item_result_def lookup_known_def)
  next
    case (Some op)
    show ?thesis
    proof (cases "l \<in> set numeric_operators \<and> py_isdigit py (value_convert l v)")
      case False
      then show ?thesis
        by (auto simp add: kv cl Some item_result_def lookup_known_def converted_of_def
            clause_of_def Let_def)
    next
      case True
      then show ?thesis
        by (cases "py_int py (value_convert l v)")
           (simp_all add: kv cl Some item_result_def lookup_known_def converted_of_def
              clause_of_def Let_def)
    qed
  qed
qed

lemma bwc_loop_ok:
  assumes "\<forall>kv \<in> set items. \<exists>p. item_result py kv = Inr p"
  shows "bwc_loop py i items (bits, ps) =
     Inr (bits @ map (\<lambda>(j, kv). clause_of j (fst kv)) (enumerate i items),
          foldl (\<lambda>d (j, kv). dict_set d (param_name j) (conv py kv)) ps (enumerate i items))"
  using assms
proof (induction items arbitrary: i bits ps)
  case Nil
  then show ?case by simp
next
  case (Cons kv items)
  from Cons.prems obtain p where p: "item_result py kv = Inr p" by auto
  from Cons.prems have rest: "\<forall>kv \<in> set items. \<exists>p. item_result py kv = Inr p" by simp
  have c: "conv py kv = p" by (simp add: conv_def p)
  show ?case
    unfolding bwc_loop_step by (simp add: p c Cons.IH[OF rest])
qed

lemma bwc_loop_fail:
  assumes "\<not> (\<forall>kv \<in> set items. \<exists>p. item_result py kv = Inr p)"
  shows "\<exists>kv \<in> set items. \<exists>e. item_result py kv = Inl e \<and> bwc_loop py i items acc = Inl e"
  using assms
proof (induction items arbitrary: i acc)
  case Nil
  then show ?case by simp
next
  case (Cons kv items)
  obtain bits ps where acc: "acc = (bits, ps)" by (cases acc)
  show ?case
  proof (cases "item_result py kv")
    case (Inl e)
    then show ?thesis unfolding acc bwc_loop_step by simp
  next
    case (Inr p)
    with Cons.prems have "\<not> (\<forall>kv \<in> set items. \<exists>p. item_result py kv = Inr p)" by simp
    from Cons.IH[OF this] show ?thesis unfolding acc bwc_loop_step by (simp add: Inr)
  qed
qed

lemma params_fold_lookup:
  "map_of (foldl (\<lambda>d (j, kv). dict_set d (param_name j) (f kv)) ps (enumerate i items))
          (param_name j) =
     (if i \<le> j \<and> j < i + length items then Some (f (items ! (j - i)))
      else map_of ps (param_name j))"
proof (induction items arbitrary: i ps)
  case Nil
  then show ?case by auto
next
  case (Cons x items)
  let ?ps = "dict_set ps (param_name i) (f x)"
  have ih: "map_of (foldl (\<lambda>d (j, kv). dict_set d (param_name j) (f kv)) ?ps
                     (enumerate (Suc i) items)) (param_name j) =
            (if Suc i \<le> j \<and> j < Suc i + length items then Some (f (items ! (j - Suc i)))
             else map_of ?ps (param_name j))"
    by (rule Cons.IH)
  show ?case
  proof (cases "j = i")
    case True
    then show ?thesis using ih by (simp add: map_of_dict_set)
  next
    case False
    have n: "(x # items) ! (j - i) = items ! (j - Suc i)" if "i < j"
      using that by (simp add: nth_Cons')
    show ?thesis
    proof (cases "i < j")
      case True
      then show ?thesis using ih n False by (simp add: map_of_dict_set)
    next
      case lt: False
      then show ?thesis using ih False by (simp add: map_of_dict_set)
    qed
  qed
qed

lemma params_fold_keys:
  assumes "\<forall>j \<ge> i. param_name j \<notin> fst ` set ps"
  shows "map fst (foldl (\<lambda>d (j, kv). dict_set d (param_name j) (f kv)) ps (enumerate i items)) =
     map fst ps @ map param_name [i..<i + length items]"
  using assms
proof (induction items arbitrary: i ps)
  case Nil
  then show ?case by simp
next
  case (Cons x items)
  let ?ps = "dict_set ps (param_name i) (f x)"
  have k: "map fst ?ps = map fst ps @ [param_name i]"
    using Cons.prems by (simp add: keys_dict_set)
  have "fst ` set ?ps = set (map fst ?ps)" by simp
  also have "\<dots> = insert (param_name i) (fst ` set ps)" unfolding k by simp
  finally have "\<forall>j \<ge> Suc i. param_name j \<notin> fst ` set ?ps"
    using Cons.prems by auto
  from Cons.IH[OF this]
  have ih: "map fst (foldl (\<lambda>d (j, kv). dict_set d (param_name j) (f kv)) ?ps
                (enumerate (Suc i) items)) =
            map fst ?ps @ map param_name [Suc i..<Suc i + length items]" .
  have u: "[i..<i + length (x # items)] = i # [Suc i..<Suc i + length items]"
    by (simp add: upt_conv_Cons del: upt_Suc)
  show ?case
    unfolding u by (simp add: ih k del: upt_Suc)
qed


lemma last_occurrence:
  assumes "\<not> sublist sep (tl (sep @ l))" and "c @ sep @ l = a @ sep @ b"
  shows "length a \<le> length c"
proof (rule ccontr)
  assume "\<not> length a \<le> length c"
  then have lt: "length c < length a" by simp
  from iffD1[OF append_eq_append_conv2[of c "sep @ l" a "sep @ b"] assms(2)]
  obtain us where "c = a @ us \<and> us @ (sep @ l) = sep @ b \<or>
      c @ us = a \<and> sep @ l = us @ (sep @ b)"
    by blast
  with lt have us: "c @ us = a" "sep @ l = us @ sep @ b" by auto
  with lt obtain u r where "us = u # r" by (cases us) auto
  with us have "tl (sep @ l) = r @ sep @ b" by simp
  with assms(1) show False by simp
qed

lemma split_key_is_split: "is_split key column lookup \<longleftrightarrow> split_key key = (column, lookup)"
proof (cases "sublist ''__'' key")
  case False
  then have "\<not> (\<exists>a b. key = a @ ''__'' @ b)" by (simp add: sublist_def)
  with False show ?thesis by (auto simp: is_split_def split_key_def)
next
  case True
  then have ex: "\<exists>a b. key = a @ ''__'' @ b" by (simp add: sublist_def)
  from True obtain c l where r: "rsplit1 ''__'' key = Some (c, l)"
    using rsplit1_None_iff[of "''__''" key] by (cases "rsplit1 ''__'' key") auto
  have key: "key = c @ ''__'' @ l" by (rule rsplit1_Some_append[OF r])
  have nl: "\<not> sublist ''__'' (tl (''__'' @ l))"
    by (rule rsplit1_Some_last[OF _ r]) simp
  have mx: "length a \<le> length c" if "key = a @ ''__'' @ b" for a b
    using last_occurrence[OF nl, of c a b] key that by simp
  have sk: "split_key key = (c, l)" using True r by (simp add: split_key_def)
  show ?thesis
  proof
    assume "is_split key column lookup"
    with ex have k2: "key = column @ ''__'' @ lookup"
      and m2: "\<forall>a b. key = a @ ''__'' @ b \<longrightarrow> length a \<le> length column"
      by (simp_all add: is_split_def)
    from m2 key have "length c \<le> length column" by blast
    moreover from mx k2 have "length column \<le> length c" by blast
    ultimately have "length column = length c" by simp
    with key k2 have "column = c \<and> lookup = l" by (metis append_eq_append_conv same_append_eq)
    with sk show "split_key key = (column, lookup)" by simp
  next
    assume "split_key key = (column, lookup)"
    with sk have "column = c" "lookup = l" by simp_all
    with ex key mx show "is_split key column lookup" by (auto simp: is_split_def)
  qed
qed

lemma templates_known:
  "map_of templates l = Some op \<longleftrightarrow> l \<in> set known_lookups \<and> op = spec_operator l"
proof -
  show ?thesis
    unfolding templates_def known_lookups_def spec_operator_def
    by (simp split: if_splits) blast
qed

lemma lookup_known_iff: "lookup_known key \<longleftrightarrow> snd (split_key key) \<in> set known_lookups"
  using templates_known[of "snd (split_key key)"] by (auto simp: lookup_known_def)

lemma clause_of_split:
  assumes "split_key key = (column, lookup)" and "lookup \<in> set known_lookups"
  shows "clause_of i key =
    [dq] @ column @ [dq] @ '' '' @ spec_operator lookup @ '' :p'' @ str_nat i"
proof -
  have "map_of templates lookup = Some (spec_operator lookup)"
    using assms(2) by (simp add: templates_known)
  then show ?thesis
    by (simp add: clause_of_def assms(1) format_template_def param_name_def)
qed


lemma item_result_split:
  assumes "split_key key = (column, lookup)"
  shows "item_result py (key, v) =
     (if lookup \<in> set known_lookups
      then (case spec_value py lookup v of Some p \<Rightarrow> Inr p | None \<Rightarrow> Inl (ValueError v))
      else Inl (KeyError lookup))"
proof (cases "lookup \<in> set known_lookups")
  case False
  then show ?thesis by (simp add: item_result_def lookup_known_iff assms)
next
  case True
  have num: "lookup \<in> set numeric_operators \<longleftrightarrow> lookup \<in> {''gt'', ''gte'', ''lt'', ''lte''}"
    by (simp add: numeric_operators_def)
  have r: "item_result py (key, v) = converted_of py key v"
    using True by (simp add: item_result_def lookup_known_iff assms)
  show ?thesis
  proof (cases "lookup = ''contains'' \<or> lookup = ''endswith'' \<or> lookup = ''startswith''")
    case w: True
    then have "lookup \<notin> {''gt'', ''gte'', ''lt'', ''lte''}" by auto
    with w True show ?thesis
      unfolding r converted_of_def assms spec_value_def value_convert_def num Let_def prod.case
      by auto
  next
    case w: False
    with True show ?thesis
      unfolding r converted_of_def assms spec_value_def value_convert_def num Let_def prod.case
      by (simp split: option.splits)
  qed
qed

lemma spec_value_None:
  "spec_value py lookup v = None \<longleftrightarrow>
     lookup \<in> {''gt'', ''gte'', ''lt'', ''lte''} \<and> py_isdigit py v \<and> py_int py v = None"
proof (cases "lookup = ''contains'' \<or> lookup = ''endswith'' \<or> lookup = ''startswith''")
  case True
  then have "lookup \<notin> {''gt'', ''gte'', ''lt'', ''lte''}" by auto
  with True show ?thesis unfolding spec_value_def by auto
next
  case False
  then show ?thesis unfolding spec_value_def by simp
qed


lemma item_result_error:
  assumes "item_result py (k, v) = Inl e"
  shows "(\<exists>column lookup. is_split k column lookup \<and> lookup \<notin> set known_lookups \<and>
            e = KeyError lookup) \<or>
         (\<exists>column lookup. is_split k column lookup \<and>
            lookup \<in> {''gt'', ''gte'', ''lt'', ''lte''} \<and> py_isdigit py v \<and>
            py_int py v = None \<and> e = ValueError v)"
proof -
  obtain c l where cl: "split_key k = (c, l)" by (cases "split_key k")
  then have s: "is_split k c l" by (simp add: split_key_is_split)
  show ?thesis
  proof (cases "l \<in> set known_lookups")
    case False
    with assms have "e = KeyError l" by (simp add: item_result_split[OF cl])
    with s False show ?thesis by blast
  next
    case True
    with assms have n: "spec_value py l v = None" and e: "e = ValueError v"
      by (simp_all add: item_result_split[OF cl] split: option.splits)
    from n have "l \<in> {''gt'', ''gte'', ''lt'', ''lte''} \<and> py_isdigit py v \<and> py_int py v = None"
      by (simp only: spec_value_None)
    with s e show ?thesis by blast
  qed
qed

lemma sorted_keys_sort: "sorted (map fst (sort (args :: ('a::linorder \<times> 'b::linorder) list)))"
proof -
  have "sorted_wrt (\<le>) (sort args)" by simp
  then have "sorted_wrt (\<lambda>x y. fst x \<le> fst y) (sort args)"
    by (rule sorted_wrt_mono_rel[rotated]) (auto simp: less_eq_prod_def)
  then show ?thesis by (simp add: sorted_map)
qed

lemma distinct_keys_sort:
  assumes "distinct (map fst args)"
  shows "distinct (map fst (sort (args :: ('a::linorder \<times> 'b::linorder) list)))"
proof -
  have "mset (map fst (sort args)) = mset (map fst args)" by simp
  then show ?thesis using assms by (metis mset_eq_imp_distinct_iff)
qed


lemma rank_nth:
  assumes "sorted xs" and "distinct xs" and "j < length xs"
  shows "card {x \<in> set xs. x < xs ! j} = j"
proof -
  have st: "sorted_wrt (<) xs" using assms by (simp add: strict_sorted_iff)
  have "{x \<in> set xs. x < xs ! j} = set (take j xs)"
  proof (rule set_eqI)
    fix x
    show "x \<in> {x \<in> set xs. x < xs ! j} \<longleftrightarrow> x \<in> set (take j xs)"
    proof
      assume "x \<in> {x \<in> set xs. x < xs ! j}"
      then obtain i where i: "i < length xs" "xs ! i = x" "x < xs ! j"
        by (auto simp: in_set_conv_nth)
      have "i < j"
      proof (rule ccontr)
        assume "\<not> i < j"
        then have "j \<le> i" by simp
        with assms(1) i(1) have "xs ! j \<le> xs ! i" by (simp add: sorted_nth_mono)
        with i show False by simp
      qed
      with i assms(3) show "x \<in> set (take j xs)"
        by (auto simp: in_set_conv_nth intro!: exI[of _ i])
    next
      assume "x \<in> set (take j xs)"
      then obtain i where i: "i < j" "i < length xs" "xs ! i = x"
        using assms(3) by (auto simp: in_set_conv_nth)
      with st assms(3) have "x < xs ! j" by (auto simp: sorted_wrt_iff_nth_less)
      with i show "x \<in> {x \<in> set xs. x < xs ! j}" by auto
    qed
  qed
  moreover have "card (set (take j xs)) = length (take j xs)"
    using assms(2) by (simp add: distinct_card)
  ultimately show ?thesis using assms(3) by simp
qed

lemma rank_sorted_item:
  assumes "distinct (map fst args)" and "(key, v) \<in> set (args :: (string \<times> 'v::linorder) list)"
  shows "rank key args < length args \<and> sort args ! rank key args = (key, v)"
proof -
  from assms(2) have "(key, v) \<in> set (sort args)" by simp
  then obtain j where j: "j < length (sort args)" "sort args ! j = (key, v)"
    unfolding in_set_conv_nth by blast
  let ?xs = "map fst (sort args)"
  have "card {x \<in> set ?xs. x < ?xs ! j} = j"
    using j(1) by (intro rank_nth) (simp_all add: sorted_keys_sort distinct_keys_sort assms(1))
  moreover have "?xs ! j = key" using j by simp
  moreover have "set ?xs = fst ` set args" by simp
  ultimately have "rank key args = j" by (simp add: rank_def)
  with j show ?thesis by simp
qed


lemma build_where_clauses_ok:
  assumes "\<forall>kv \<in> set args. \<exists>p. item_result py kv = Inr p"
  shows "build_where_clauses py args =
     Inr (map (\<lambda>(j, kv). clause_of j (fst kv)) (enumerate 0 (sort args)),
          foldl (\<lambda>d (j, kv). dict_set d (param_name j) (conv py kv)) [] (enumerate 0 (sort args)))"
proof -
  have "\<forall>kv \<in> set (sort args). \<exists>p. item_result py kv = Inr p" using assms by simp
  from bwc_loop_ok[OF this, of 0 "[]" "[]"] show ?thesis
    by (simp add: build_where_clauses_def)
qed

lemma build_where_clauses_fail:
  assumes "\<not> (\<forall>kv \<in> set args. \<exists>p. item_result py kv = Inr p)"
  shows "\<exists>kv \<in> set args. \<exists>e. item_result py kv = Inl e \<and> build_where_clauses py args = Inl e"
proof -
  have "\<not> (\<forall>kv \<in> set (sort args). \<exists>p. item_result py kv = Inr p)" using assms by simp
  from bwc_loop_fail[OF this, of 0 "([], [])"] show ?thesis
    by (simp add: build_where_clauses_def)
qed

lemma build_where_clauses_returns_iff:
  "(\<exists>r. build_where_clauses py args = Inr r) \<longleftrightarrow>
     (\<forall>kv \<in> set args. \<exists>p. item_result py kv = Inr p)"
proof
  assume "\<exists>r. build_where_clauses py args = Inr r"
  then obtain r where r: "build_where_clauses py args = Inr r" ..
  show "\<forall>kv \<in> set args. \<exists>p. item_result py kv = Inr p"
  proof (rule ccontr)
    assume "\<not> ?thesis"
    from build_where_clauses_fail[OF this] r show False by auto
  qed
next
  assume "\<forall>kv \<in> set args. \<exists>p. item_result py kv = Inr p"
  from build_where_clauses_ok[OF this] show "\<exists>r. build_where_clauses py args = Inr r" by blast
qed

lemma build_where_clauses_item:
  assumes "distinct (map fst args)"
    and "build_where_clauses py args = Inr (sql_bits, params)"
    and "(key, v) \<in> set args"
  shows "length sql_bits = length args \<and>
         map fst params = map param_name [0..<length args] \<and>
         rank key args < length args \<and>
         (\<exists>column lookup p.
            is_split key column lookup \<and>
            lookup \<in> set known_lookups \<and>
            sql_bits ! rank key args =
              [dq] @ column @ [dq] @ '' '' @ spec_operator lookup @ '' :p'' @
              str_nat (rank key args) \<and>
            spec_value py lookup v = Some p \<and>
            map_of params (''p'' @ str_nat (rank key args)) = Some p)"
proof -
  from assms(2) have all: "\<forall>kv \<in> set args. \<exists>p. item_result py kv = Inr p"
    using build_where_clauses_returns_iff[of py args] by blast
  let ?items = "sort args"
  let ?bits = "map (\<lambda>(j, kv). clause_of j (fst kv)) (enumerate 0 ?items)"
  let ?ps = "foldl (\<lambda>d (j, kv). dict_set d (param_name j) (conv py kv)) [] (enumerate 0 ?items)"
  from build_where_clauses_ok[OF all] assms(2)
  have bits: "sql_bits = ?bits" and ps: "params = ?ps" by simp_all
  have len: "length sql_bits = length args" by (simp add: bits)
  have keys: "map fst params = map param_name [0..<length args]"
    unfolding ps using params_fold_keys[of 0 "[]" "conv py" ?items] by simp
  from all assms(3) obtain p where p: "item_result py (key, v) = Inr p" by force
  obtain column lookup where sk: "split_key key = (column, lookup)" by (cases "split_key key")
  then have sp: "is_split key column lookup" by (simp add: split_key_is_split)
  from p have kn: "lookup \<in> set known_lookups" and sv: "spec_value py lookup v = Some p"
    by (simp_all add: item_result_split[OF sk] split: if_splits option.splits)
  let ?r = "rank key args"
  from rank_sorted_item[OF assms(1) assms(3)]
  have r: "?r < length args" and it: "?items ! ?r = (key, v)" by simp_all
  have "?bits ! ?r = clause_of ?r key"
    using r it by (simp add: nth_enumerate_eq)
  then have b: "sql_bits ! ?r =
      [dq] @ column @ [dq] @ '' '' @ spec_operator lookup @ '' :p'' @ str_nat ?r"
    unfolding bits by (simp only: clause_of_split[OF sk kn])
  have "map_of ?ps (param_name ?r) = Some (conv py (?items ! (?r - 0)))"
    using r by (subst params_fold_lookup) simp
  then have q: "map_of params (''p'' @ str_nat ?r) = Some p"
    by (simp add: ps it conv_def p param_name_def)
  from len keys r sp kn b sv q show ?thesis by blast
qed



subsection \<open>The WHERE-clause builder\<close>

text \<open>
  C3 (amended). When a filter-argument mapping contains a key whose part after the last
  \<^verbatim>\<open>__\<close> is not one of the ten lookups, the WHERE-clause builder fails, and
  \<^verbatim>\<open>view_get\<close> does not catch the failure, so it is not turned into the payload with
  status 400. The failure is the \<^verbatim>\<open>KeyError\<close> of the template dictionary for a lookup
  that is not among the ten, or the \<^verbatim>\<open>ValueError\<close> of \<^verbatim>\<open>int\<close> for the value of a key
  with the lookup gt, gte, lt or lte, a value for which \<^verbatim>\<open>isdigit\<close> holds and that
  \<^verbatim>\<open>int\<close> rejects.
\<close>

theorem build_where_clauses_unknown_lookup:
  assumes "(key, v) \<in> set args"
    and "is_split key column lookup"
    and "lookup \<notin> set known_lookups"
  shows "\<exists>e. build_where_clauses py args = Inl e \<and>
           view_get_status (build_where_clauses py args) = Inl e \<and>
           ((\<exists>l. l \<notin> set known_lookups \<and> e = KeyError l) \<or>
            (\<exists>k' v' c' l'. (k', v') \<in> set args \<and> is_split k' c' l' \<and>
               l' \<in> {''gt'', ''gte'', ''lt'', ''lte''} \<and> py_isdigit py v' \<and>
               py_int py v' = None \<and> e = ValueError v'))"
proof -
  from assms(2) have sk: "split_key key = (column, lookup)" by (simp add: split_key_is_split)
  have "item_result py (key, v) = Inl (KeyError lookup)"
    using assms(3) by (simp add: item_result_split[OF sk])
  with assms(1) have "\<not> (\<forall>kv \<in> set args. \<exists>p. item_result py kv = Inr p)" by force
  from build_where_clauses_fail[OF this] obtain kv e where
    kv: "kv \<in> set args" "item_result py kv = Inl e" and r: "build_where_clauses py args = Inl e"
    by blast
  obtain k' v' where p: "kv = (k', v')" by (cases kv)
  from item_result_error[OF kv(2)[unfolded p]]
  consider (key_error) l where "l \<notin> set known_lookups" "e = KeyError l"
    | (value_error) c' l' where "is_split k' c' l'" "l' \<in> {''gt'', ''gte'', ''lt'', ''lte''}"
        "py_isdigit py v'" "py_int py v' = None" "e = ValueError v'"
    by blast
  then show ?thesis
  proof cases
    case key_error
    then show ?thesis using r by (auto simp: view_get_status_def)
  next
    case value_error
    have "view_get_status (build_where_clauses py args) = Inl e"
      using r value_error(5) by (simp add: view_get_status_def)
    moreover have "\<exists>k' v' c' l'. (k', v') \<in> set args \<and> is_split k' c' l' \<and>
               l' \<in> {''gt'', ''gte'', ''lt'', ''lte''} \<and> py_isdigit py v' \<and>
               py_int py v' = None \<and> e = ValueError v'"
      using kv(1) p value_error by blast
    ultimately show ?thesis using r by blast
  qed
qed

theorem build_where_clauses_unknown_lookup_witness:
  "(''name__foo'', ''x'') \<in> set [(''age__gt'', ''3''), (''name__foo'', ''x'')] \<and>
   is_split ''name__foo'' ''name'' ''foo'' \<and>
   ''foo'' \<notin> set known_lookups \<and>
   build_where_clauses latin1 [(''age__gt'', ''3''), (''name__foo'', ''x'')] =
     Inl (KeyError ''foo'') \<and>
   view_get_status (build_where_clauses latin1 [(''age__gt'', ''3''), (''name__foo'', ''x'')]) =
     Inl (KeyError ''foo'') \<and>
   (''z__foo'', ''x'') \<in> set [(''a__gt'', [CHR 0xC2, CHR 0xB2]), (''z__foo'', ''x'')] \<and>
   is_split ''z__foo'' ''z'' ''foo'' \<and>
   build_where_clauses latin1 [(''a__gt'', [CHR 0xC2, CHR 0xB2]), (''z__foo'', ''x'')] =
     Inl (ValueError [CHR 0xC2, CHR 0xB2]) \<and>
   view_get_status
     (build_where_clauses latin1 [(''a__gt'', [CHR 0xC2, CHR 0xB2]), (''z__foo'', ''x'')]) =
     Inl (ValueError [CHR 0xC2, CHR 0xB2])"
proof -
  let ?args1 = "[(''age__gt'', ''3''), (''name__foo'', ''x'')]"
  let ?args2 = "[(''a__gt'', [CHR 0xC2, CHR 0xB2]), (''z__foo'', ''x'')]"
  have m1: "(''name__foo'', ''x'') \<in> set ?args1" by simp
  have m2: "(''z__foo'', ''x'') \<in> set ?args2" by simp
  have "split_key ''name__foo'' = (''name'', ''foo'')" by code_simp
  then have s1: "is_split ''name__foo'' ''name'' ''foo''" by (simp only: split_key_is_split)
  have "split_key ''z__foo'' = (''z'', ''foo'')" by code_simp
  then have s2: "is_split ''z__foo'' ''z'' ''foo''" by (simp only: split_key_is_split)
  have n: "''foo'' \<notin> set known_lookups" by (simp add: known_lookups_def)
  have e1: "build_where_clauses latin1 ?args1 = Inl (KeyError ''foo'')" by code_simp
  have e2: "build_where_clauses latin1 ?args2 = Inl (ValueError [CHR 0xC2, CHR 0xB2])"
    by code_simp
  from build_where_clauses_unknown_lookup[OF m1 s1 n, of latin1]
  have v1: "view_get_status (build_where_clauses latin1 ?args1) = Inl (KeyError ''foo'')"
    unfolding e1 by simp
  from build_where_clauses_unknown_lookup[OF m2 s2 n, of latin1]
  have v2: "view_get_status (build_where_clauses latin1 ?args2) =
      Inl (ValueError [CHR 0xC2, CHR 0xB2])"
    unfolding e2 by simp
  from m1 m2 s1 s2 n e1 e2 v1 v2 show ?thesis by blast
qed

text \<open>The mapping \<^verbatim>\<open>{'name__foo': 'x'}\<close>: the builder raises
  \<^verbatim>\<open>KeyError('foo')\<close>, which is not \<^verbatim>\<open>InvalidSql\<close>, and \<^verbatim>\<open>view_get\<close> lets it
  pass.\<close>

theorem build_where_clauses_unknown_lookup_counterexample:
  "\<forall>py. build_where_clauses py [(''name__foo'', ''x'')] = Inl (KeyError ''foo'') \<and>
     view_get_status (build_where_clauses py [(''name__foo'', ''x'')]) = Inl (KeyError ''foo'')"
proof
  fix py
  have "build_where_clauses py [(''name__foo'', ''x'')] = Inl (KeyError ''foo'')"
    by code_simp
  then show "build_where_clauses py [(''name__foo'', ''x'')] = Inl (KeyError ''foo'') \<and>
     view_get_status (build_where_clauses py [(''name__foo'', ''x'')]) = Inl (KeyError ''foo'')"
    by (simp add: view_get_status_def)
qed







subsection \<open>The resolver\<close>

lemma sublist_single: "sublist [x] ys \<longleftrightarrow> x \<in> set ys"
  by (auto simp: sublist_def in_set_conv_decomp)

lemma rsplit1_hyphen_iff:
  "rsplit1 ''-'' slug = Some (c, h) \<longleftrightarrow> slug = c @ ''-'' @ h \<and> CHR ''-'' \<notin> set h"
proof
  assume r: "rsplit1 ''-'' slug = Some (c, h)"
  have "\<not> sublist ''-'' (tl (''-'' @ h))" by (rule rsplit1_Some_last[OF _ r]) simp
  then have "CHR ''-'' \<notin> set h" by (simp add: sublist_single)
  with rsplit1_Some_append[OF r] show "slug = c @ ''-'' @ h \<and> CHR ''-'' \<notin> set h" by simp
next
  assume a: "slug = c @ ''-'' @ h \<and> CHR ''-'' \<notin> set h"
  then have "\<not> sublist ''-'' (tl (''-'' @ h))" by (simp add: sublist_single)
  from rsplit1_last[OF _ this, of c] a show "rsplit1 ''-'' slug = Some (c, h)" by simp
qed

lemma parse_slug:
  assumes "slug_parts databases slug name provided"
  shows "(if sublist ''-'' slug then
           (case rsplit1 ''-'' slug of
              Some (n, h) \<Rightarrow> if databases n = None then (slug, None) else (n, Some h)
            | None \<Rightarrow> (slug, None))
         else (slug, None)) = (name, provided)"
proof (cases "\<exists>c h. slug = c @ ''-'' @ h \<and> CHR ''-'' \<notin> set h \<and> c \<in> dom databases")
  case True
  then obtain c h where ch: "slug = c @ ''-'' @ h" "CHR ''-'' \<notin> set h" "c \<in> dom databases"
    by blast
  then have r: "rsplit1 ''-'' slug = Some (c, h)" by (simp add: rsplit1_hyphen_iff)
  from assms have "\<exists>h. slug = name @ ''-'' @ h \<and> CHR ''-'' \<notin> set h \<and> provided = Some h"
    unfolding slug_parts_def by (simp only: True if_True)
  then obtain h' where h': "slug = name @ ''-'' @ h'" "CHR ''-'' \<notin> set h'"
      "provided = Some h'"
    by blast
  then have "rsplit1 ''-'' slug = Some (name, h')" by (simp add: rsplit1_hyphen_iff)
  with r have eq: "name = c" "h' = h" by simp_all
  have "sublist ''-'' slug" using ch(1) by (simp add: sublist_single)
  moreover have "databases c \<noteq> None" using ch(3) by (simp add: dom_def)
  ultimately show ?thesis using r eq h'(3) by simp
next
  case False
  from assms have "name = slug \<and> provided = None"
    unfolding slug_parts_def by (simp only: False if_False)
  then have np: "name = slug" "provided = None" by simp_all
  show ?thesis
  proof (cases "rsplit1 ''-'' slug")
    case None
    then show ?thesis using np by simp
  next
    case (Some ch)
    obtain c h where ch: "ch = (c, h)" by (cases ch)
    with Some have "slug = c @ ''-'' @ h \<and> CHR ''-'' \<notin> set h"
      by (simp add: rsplit1_hyphen_iff)
    with False have "c \<notin> dom databases" by blast
    then have "databases c = None" by (simp add: dom_def)
    then show ?thesis using Some ch np by simp
  qed
qed

lemma slug_parts_total: "\<exists>name provided. slug_parts databases slug name provided"
proof (cases "\<exists>c h. slug = c @ ''-'' @ h \<and> CHR ''-'' \<notin> set h \<and> c \<in> dom databases")
  case True
  then obtain c h where "slug = c @ ''-'' @ h" "CHR ''-'' \<notin> set h" "c \<in> dom databases"
    by blast
  then have "\<exists>h'. slug = c @ ''-'' @ h' \<and> CHR ''-'' \<notin> set h' \<and> Some h = Some h'"
    by blast
  then have "slug_parts databases slug c (Some h)"
    unfolding slug_parts_def by (simp only: True if_True)
  then show ?thesis by blast
next
  case False
  have "slug = slug \<and> (None :: string option) = None" by simp
  then have "slug_parts databases slug slug None"
    unfolding slug_parts_def by (simp only: False if_False)
  then show ?thesis by blast
qed

text \<open>
  C6. Every slug has a reading: split on the final hyphen into a name of the catalog and a
  provided hash, or else the whole slug as the name with no hash. For this reading, an
  unknown name yields \<^verbatim>\<open>NotFound\<close>; a provided hash that differs from the first seven
  characters of the digest (or no provided hash) yields the redirect with status 302 to
  \<^verbatim>\<open>/<name>-<digest[:7]>\<close> followed by the table, the extension and \<^verbatim>\<open>.db\<close> of
  the request and by its query string, with the header \<^verbatim>\<open>Link: <target>; rel=preload\<close>;
  otherwise the request is dispatched to the handler with the name and the hash.
\<close>

theorem get_resolves_slug:
  "(\<exists>name provided. slug_parts databases slug name provided) \<and>
   (\<forall>name provided. slug_parts databases slug name provided \<longrightarrow>
      get databases req slug kw =
        (case databases name of
           None \<Rightarrow> Inl (NotFound (''Database not found: '' @ name))
         | Some info \<Rightarrow>
             if provided \<noteq> Some (take 7 (db_hash info))
             then Inr (Redirected
                    \<lparr>status = 302,
                     location = canonical_target name info kw req,
                     link = ''<'' @ canonical_target name info kw req @ ''>; rel=preload''\<rparr>)
             else Inr (Dispatched name (take 7 (db_hash info)) kw)))"
proof (intro conjI allI impI)
  show "\<exists>name provided. slug_parts databases slug name provided"
    by (rule slug_parts_total)
next
  fix name provided
  assume sp: "slug_parts databases slug name provided"
  note p = parse_slug[OF sp]
  show "get databases req slug kw =
        (case databases name of
           None \<Rightarrow> Inl (NotFound (''Database not found: '' @ name))
         | Some info \<Rightarrow>
             if provided \<noteq> Some (take 7 (db_hash info))
             then Inr (Redirected
                    \<lparr>status = 302,
                     location = canonical_target name info kw req,
                     link = ''<'' @ canonical_target name info kw req @ ''>; rel=preload''\<rparr>)
             else Inr (Dispatched name (take 7 (db_hash info)) kw))"
  proof (cases "databases name")
    case None
    then show ?thesis
      unfolding get_def resolve_db_name_def p by simp
  next
    case (Some info)
    show ?thesis
    proof (cases "provided = Some (take 7 (db_hash info))")
      case True
      then show ?thesis
        unfolding get_def resolve_db_name_def p using Some by (simp add: Let_def)
    next
      case False
      then have ne: "Some (take 7 (db_hash info)) \<noteq> provided" by auto
      define r0 where "r0 = ''/'' @ name @ ''-'' @ take 7 (db_hash info)"
      define segs where "segs =
        (case kw_table kw of Some t \<Rightarrow> ''/'' @ t | None \<Rightarrow> []) @
        (case kw_as_json kw of Some j \<Rightarrow> j | None \<Rightarrow> []) @
        (case kw_as_db kw of Some d \<Rightarrow> d | None \<Rightarrow> [])"
      have r3: "(case kw_as_db kw of
                   Some d \<Rightarrow>
                     (case kw_as_json kw of
                        Some j \<Rightarrow> (case kw_table kw of Some t \<Rightarrow> r0 @ ''/'' @ t | None \<Rightarrow> r0) @ j
                      | None \<Rightarrow> (case kw_table kw of Some t \<Rightarrow> r0 @ ''/'' @ t | None \<Rightarrow> r0)) @ d
                 | None \<Rightarrow>
                     (case kw_as_json kw of
                        Some j \<Rightarrow> (case kw_table kw of Some t \<Rightarrow> r0 @ ''/'' @ t | None \<Rightarrow> r0) @ j
                      | None \<Rightarrow> (case kw_table kw of Some t \<Rightarrow> r0 @ ''/'' @ t | None \<Rightarrow> r0)))
                = r0 @ segs"
        unfolding segs_def
        by (cases "kw_table kw"; cases "kw_as_json kw"; cases "kw_as_db kw") simp_all
      have res: "resolve_db_name databases slug kw =
                 Inr (name, take 7 (db_hash info), Some (r0 @ segs))"
        unfolding resolve_db_name_def p prod.case Let_def
        using Some ne by (simp add: r3[unfolded r0_def] r0_def)
      have nonempty: "r0 @ segs \<noteq> []" by (simp add: r0_def)
      have g: "get databases req slug kw = Inr (Redirected (redirect req (r0 @ segs)))"
        unfolding get_def res using nonempty by simp
      have t: "(if query_string req \<noteq> [] then (r0 @ segs) @ ''?'' @ query_string req
                else r0 @ segs) = canonical_target name info kw req"
        by (simp add: canonical_target_def r0_def segs_def)
      have "redirect req (r0 @ segs) =
            \<lparr>status = 302, location = canonical_target name info kw req,
             link = ''<'' @ canonical_target name info kw req @ ''>; rel=preload''\<rparr>"
        unfolding redirect_def Let_def t ..
      with g show ?thesis using Some False by simp
    qed
  qed
qed


theorem get_resolves_slug_witness:
  "slug_parts [''fixtures'' \<mapsto> \<lparr>db_hash = ''a1b2c3d4e5f6'', db_file = ''fixtures.db'', db_tables = []\<rparr>]
     ''fixtures'' ''fixtures'' None \<and>
   get [''fixtures'' \<mapsto> \<lparr>db_hash = ''a1b2c3d4e5f6'', db_file = ''fixtures.db'', db_tables = []\<rparr>]
     \<lparr>path = ''/fixtures/t.json'', query_string = ''a=1''\<rparr> ''fixtures''
     \<lparr>kw_table = Some ''t'', kw_as_json = Some ''.json'', kw_as_db = None, kw_pk_path = None\<rparr> =
   Inr (Redirected
     \<lparr>status = 302, location = ''/fixtures-a1b2c3d/t.json?a=1'',
      link = ''</fixtures-a1b2c3d/t.json?a=1>; rel=preload''\<rparr>) \<and>
   slug_parts [''fixtures'' \<mapsto> \<lparr>db_hash = ''a1b2c3d4e5f6'', db_file = ''fixtures.db'', db_tables = []\<rparr>]
     ''fixtures-a1b2c3d'' ''fixtures'' (Some ''a1b2c3d'') \<and>
   get [''fixtures'' \<mapsto> \<lparr>db_hash = ''a1b2c3d4e5f6'', db_file = ''fixtures.db'', db_tables = []\<rparr>]
     \<lparr>path = ''/fixtures-a1b2c3d/t.json'', query_string = ''a=1''\<rparr> ''fixtures-a1b2c3d''
     \<lparr>kw_table = Some ''t'', kw_as_json = Some ''.json'', kw_as_db = None, kw_pk_path = None\<rparr> =
   Inr (Dispatched ''fixtures'' ''a1b2c3d''
     \<lparr>kw_table = Some ''t'', kw_as_json = Some ''.json'', kw_as_db = None, kw_pk_path = None\<rparr>)"
proof -
  let ?cat = "[''fixtures'' \<mapsto> \<lparr>db_hash = ''a1b2c3d4e5f6'', db_file = ''fixtures.db'', db_tables = []\<rparr>]"
  let ?kw = "\<lparr>kw_table = Some ''t'', kw_as_json = Some ''.json'', kw_as_db = None, kw_pk_path = None\<rparr>"
  have no: "\<not> (\<exists>c h. ''fixtures'' = c @ ''-'' @ h \<and> CHR ''-'' \<notin> set h \<and> c \<in> dom ?cat)"
  proof
    assume "\<exists>c h. ''fixtures'' = c @ ''-'' @ h \<and> CHR ''-'' \<notin> set h \<and> c \<in> dom ?cat"
    then obtain c h where "''fixtures'' = c @ ''-'' @ h" by blast
    then have "CHR ''-'' \<in> set ''fixtures''" by (metis in_set_conv_decomp append_Cons append_Nil)
    then show False by simp
  qed
  have "''fixtures'' = ''fixtures'' \<and> (None :: string option) = None" by simp
  then have s1: "slug_parts ?cat ''fixtures'' ''fixtures'' None"
    unfolding slug_parts_def by (simp only: no if_False)
  have yes: "\<exists>c h. ''fixtures-a1b2c3d'' = c @ ''-'' @ h \<and> CHR ''-'' \<notin> set h \<and> c \<in> dom ?cat"
    by (intro exI[of _ "''fixtures''"] exI[of _ "''a1b2c3d''"]) simp
  have "\<exists>h. ''fixtures-a1b2c3d'' = ''fixtures'' @ ''-'' @ h \<and> CHR ''-'' \<notin> set h \<and>
            Some ''a1b2c3d'' = Some h"
    by (intro exI[of _ "''a1b2c3d''"]) simp
  then have s2: "slug_parts ?cat ''fixtures-a1b2c3d'' ''fixtures'' (Some ''a1b2c3d'')"
    unfolding slug_parts_def by (simp only: yes if_True)
  note g1 = get_resolves_slug[of ?cat "''fixtures''"
              "\<lparr>path = ''/fixtures/t.json'', query_string = ''a=1''\<rparr>" ?kw,
              THEN conjunct2, rule_format, OF s1]
  note g2 = get_resolves_slug[of ?cat "''fixtures-a1b2c3d''"
              "\<lparr>path = ''/fixtures-a1b2c3d/t.json'', query_string = ''a=1''\<rparr>" ?kw,
              THEN conjunct2, rule_format, OF s2]
  show ?thesis
    using s1 s2 g1 g2 by (simp add: canonical_target_def)
qed

subsection \<open>The codec of compound primary keys\<close>

lemma hex_digit_facts:
  "\<forall>d \<in> {0..<16}. unhex (hex_digit d) = Some d \<and> hex_digit d \<noteq> CHR ''+'' \<and>
      hex_digit d \<noteq> CHR '',''"
  by code_simp

lemma hex_digit_unhex: "d < 16 \<Longrightarrow> unhex (hex_digit d) = Some d"
  using hex_digit_facts by simp

lemma hex_digit_plain: "d < 16 \<Longrightarrow> hex_digit d \<noteq> CHR ''+'' \<and> hex_digit d \<noteq> CHR '',''"
  using hex_digit_facts by simp

lemma always_safe_plain:
  "always_safe c \<Longrightarrow> c \<noteq> CHR ''%'' \<and> c \<noteq> CHR ''+'' \<and> c \<noteq> CHR '',''"
  by (auto simp: always_safe_def)

lemma unquote_other: "c \<noteq> CHR ''%'' \<Longrightarrow> unquote (c # cs) = c # unquote cs"
  by (cases "c # cs" rule: unquote.cases) auto

lemma unquote_escape:
  "unhex h1 = Some a \<Longrightarrow> unhex h2 = Some b \<Longrightarrow>
   unquote (CHR ''%'' # h1 # h2 # rest) = char_of (16 * a + b) # unquote rest"
  by simp

lemma of_char_split: "char_of (16 * (of_char c div 16) + of_char c mod (16::nat)) = c"
  by simp

lemma of_char_div16: "(of_char c :: nat) div 16 < 16"
proof -
  have "(of_char c :: nat) < 16 * 16" by simp
  then show ?thesis by (rule less_mult_imp_div_less)
qed

lemma unquote_plus_quote_plus: "unquote_plus (quote_plus s) = s"
proof (induction s)
  case Nil
  then show ?case by (simp add: unquote_plus_def quote_plus_def)
next
  case (Cons c s)
  let ?pm = "map (\<lambda>c. if c = CHR ''+'' then CHR '' '' else c)"
  have ih: "unquote (?pm (quote_plus s)) = s"
    using Cons.IH by (simp add: unquote_plus_def)
  have q: "quote_plus (c # s) = quote_byte c @ quote_plus s" by (simp add: quote_plus_def)
  consider (safe) "always_safe c" | (space) "\<not> always_safe c" "c = CHR '' ''"
    | (esc) "\<not> always_safe c" "c \<noteq> CHR '' ''" by blast
  then show ?case
  proof cases
    case safe
    with always_safe_plain[of c] show ?thesis
      by (simp add: unquote_plus_def q quote_byte_def unquote_other ih)
  next
    case space
    then have "quote_byte c = ''+''" by (simp add: quote_byte_def)
    then have "?pm (quote_plus (c # s)) = CHR '' '' # ?pm (quote_plus s)"
      by (simp add: q)
    then have "unquote (?pm (quote_plus (c # s))) = CHR '' '' # s"
      by (simp add: unquote_other ih)
    then show ?thesis using space by (simp only: unquote_plus_def)
  next
    case esc
    let ?a = "of_char c div (16::nat)" and ?b = "of_char c mod (16::nat)"
    have a: "unhex (hex_digit ?a) = Some ?a" by (rule hex_digit_unhex[OF of_char_div16])
    have b: "unhex (hex_digit ?b) = Some ?b" by (rule hex_digit_unhex) simp
    have pa: "hex_digit ?a \<noteq> CHR ''+''" using hex_digit_plain[OF of_char_div16] by simp
    have pb: "hex_digit ?b \<noteq> CHR ''+''" using hex_digit_plain[of ?b] by simp
    have "?pm (quote_plus (c # s)) =
        CHR ''%'' # hex_digit ?a # hex_digit ?b # ?pm (quote_plus s)"
      using esc pa pb by (simp add: q quote_byte_def)
    then have "unquote (?pm (quote_plus (c # s))) = char_of (16 * ?a + ?b) # s"
      by (simp only: unquote_escape[OF a b] ih)
    then show ?thesis by (simp only: unquote_plus_def of_char_split)
  qed
qed

lemma quote_byte_no_comma: "CHR '','' \<notin> set (quote_byte c)"
proof -
  have "hex_digit (of_char c div 16) \<noteq> CHR '',''"
    using hex_digit_plain[OF of_char_div16] by simp
  moreover have "hex_digit (of_char c mod 16) \<noteq> CHR '',''"
    using hex_digit_plain[of "of_char c mod 16"] by simp
  ultimately show ?thesis
    using always_safe_plain[of c] by (auto simp: quote_byte_def)
qed

lemma quote_plus_no_comma: "CHR '','' \<notin> set (quote_plus s)"
  using quote_byte_no_comma by (auto simp: quote_plus_def)

lemma split_on_nonempty: "split_on sep s \<noteq> []"
  by (induction s) (auto split: list.splits)

lemma split_on_plain: "sep \<notin> set b \<Longrightarrow> split_on sep b = [b]"
  by (induction b) auto

lemma split_on_append:
  "sep \<notin> set b \<Longrightarrow> split_on sep (b @ sep # rest) = b # split_on sep rest"
  by (induction b) auto

lemma split_on_join:
  assumes "bits \<noteq> []" and "\<forall>b \<in> set bits. sep \<notin> set b"
  shows "split_on sep (join [sep] bits) = bits"
  using assms
proof (induction bits)
  case Nil
  then show ?case by simp
next
  case (Cons b bits)
  show ?case
  proof (cases bits)
    case Nil
    with Cons.prems show ?thesis by (simp add: split_on_plain)
  next
    case (Cons v va)
    with Cons.prems Cons.IH have ih: "split_on sep (join [sep] (v # va)) = v # va" by simp
    have j: "join [sep] (b # v # va) = b @ sep # join [sep] (v # va)" by simp
    have nb: "sep \<notin> set b" using Cons.prems by simp
    have "split_on sep (join [sep] (b # v # va)) = b # split_on sep (join [sep] (v # va))"
      unfolding j by (rule split_on_append[OF nb])
    with ih Cons show ?thesis by simp
  qed
qed

lemma pk_bits_ok:
  assumes "set pks \<subseteq> dom row"
  shows "pk_bits str row pks = Inr (map (\<lambda>pk. quote_plus (str (the (row pk)))) pks)"
  using assms
proof (induction pks)
  case Nil
  then show ?case by simp
next
  case (Cons pk pks)
  then obtain v where "row pk = Some v" by auto
  with Cons show ?case by (simp add: row_get_def)
qed

text \<open>
  C4 (amended). For every row, every boolean \<open>use_rowid\<close> and every list \<open>pks\<close> of
  column names of the row that is not empty unless \<open>use_rowid\<close> holds, the encoder
  returns a token, and decoding it gives the strings \<^verbatim>\<open>str(row[pk])\<close> of the values at
  the columns \<open>pks\<close> in order, or the one-element list with \<^verbatim>\<open>str(row['rowid'])\<close>
  when \<open>use_rowid\<close> holds (and the row has a \<^verbatim>\<open>rowid\<close>).
\<close>

theorem codec_round_trip:
  assumes "use_rowid \<or> pks \<noteq> []"
    and "if use_rowid then ''rowid'' \<in> dom row else set pks \<subseteq> dom row"
  shows "\<exists>token. path_from_row_pks str row pks use_rowid = Inr token \<and>
           compound_pks_from_path token =
             (if use_rowid then [str (the (row ''rowid''))]
              else map (\<lambda>pk. str (the (row pk))) pks)"
proof (cases use_rowid)
  case True
  with assms(2) obtain v where v: "row ''rowid'' = Some v" by auto
  have "path_from_row_pks str row pks use_rowid = Inr (quote_plus (str v))"
    using True v by (simp add: path_from_row_pks_def row_get_def)
  moreover have "compound_pks_from_path (quote_plus (str v)) = [str v]"
    by (simp add: compound_pks_from_path_def split_on_plain quote_plus_no_comma
        unquote_plus_quote_plus)
  ultimately show ?thesis using True v by simp
next
  case False
  with assms have ne: "pks \<noteq> []" and sub: "set pks \<subseteq> dom row" by simp_all
  let ?bits = "map (\<lambda>pk. quote_plus (str (the (row pk)))) pks"
  have enc: "path_from_row_pks str row pks use_rowid = Inr (join '','' ?bits)"
    using False by (simp add: path_from_row_pks_def pk_bits_ok[OF sub])
  have "split_on CHR '','' (join '','' ?bits) = ?bits"
    using ne by (intro split_on_join) (auto simp: quote_plus_no_comma)
  then have "compound_pks_from_path (join '','' ?bits) = map (\<lambda>pk. str (the (row pk))) pks"
    by (simp add: compound_pks_from_path_def unquote_plus_quote_plus comp_def)
  with enc False show ?thesis by simp
qed

theorem codec_round_trip_witness:
  "(\<exists>token. path_from_row_pks id [''a'' \<mapsto> ''x y'', ''b'' \<mapsto> ''1,2''] [''a'', ''b''] False =
      Inr token \<and> compound_pks_from_path token = [''x y'', ''1,2'']) \<and>
   (\<exists>token. path_from_row_pks id [''rowid'' \<mapsto> ''7''] [] True = Inr token \<and>
      compound_pks_from_path token = [''7''])"
proof -
  have a: "False \<or> [''a'', ''b''] \<noteq> []" by simp
  have b: "if False then ''rowid'' \<in> dom [''a'' \<mapsto> ''x y'', ''b'' \<mapsto> ''1,2'']
           else set [''a'', ''b''] \<subseteq> dom [''a'' \<mapsto> ''x y'', ''b'' \<mapsto> ''1,2'']"
    by simp
  have c: "True \<or> ([] :: string list) \<noteq> []" by simp
  have d: "if True then ''rowid'' \<in> dom [''rowid'' \<mapsto> ''7'']
           else set [] \<subseteq> dom [''rowid'' \<mapsto> ''7'']"
    by simp
  from codec_round_trip[OF a b, of id] codec_round_trip[OF c d, of id]
  show ?thesis by simp
qed

text \<open>With no primary key and without \<open>use_rowid\<close>, as for a view, the token is the
  empty string, and it decodes into one empty component, not into the empty tuple.\<close>

theorem codec_round_trip_counterexample:
  "path_from_row_pks id [''a'' \<mapsto> ''x''] [] False = Inr [] \<and>
   compound_pks_from_path [] = [[]] \<and>
   compound_pks_from_path [] \<noteq> map (\<lambda>pk. id (the ([''a'' \<mapsto> ''x''] pk))) []"
  by (simp add: path_from_row_pks_def compound_pks_from_path_def unquote_plus_def)

subsection \<open>The time limit of a statement\<close>

lemma execute_ok_removes_handler:
  assumes "engine sql params (sqlite_timelimit_before now SQL_TIME_LIMIT_MS c) = Inr rows"
  shows "execute engine now sql params c = (Inr rows, c\<lparr>handler := None\<rparr>)"
  using assms
  by (simp add: execute_def with_contextmanager_def sqlite_timelimit_after_def
      sqlite_timelimit_before_def Let_def)

text \<open>
  C2. The claim is that the progress handler is removed before \<^verbatim>\<open>execute\<close> returns,
  also when the statement fails. This holds when the statement completes (lemma
  \<open>execute_ok_removes_handler\<close>). When the statement raises, the statement after the
  \<^verbatim>\<open>yield\<close> of \<^verbatim>\<open>sqlite_timelimit\<close> does not run: \<^verbatim>\<open>execute\<close> raises the same
  error and the handler with its deadline stays installed on the connection.
\<close>

theorem execute_error_keeps_handler:
  assumes "engine sql params (sqlite_timelimit_before now SQL_TIME_LIMIT_MS c) = Inl e"
  shows "execute engine now sql params c =
           (Inl e, c\<lparr>handler := Some \<lparr>deadline = now + 1000, instructions = 1000\<rparr>\<rparr>) \<and>
         handler (snd (execute engine now sql params c)) \<noteq> None"
  using assms
  by (simp add: execute_def with_contextmanager_def sqlite_timelimit_before_def
      SQL_TIME_LIMIT_MS_def Let_def)

theorem execute_error_keeps_handler_witness:
  "execute (\<lambda>sql params c. Inl (OperationalError ''no such table: t'') :: error + string list)
     0 ''select * from t'' () \<lparr>handler = None\<rparr> =
     (Inl (OperationalError ''no such table: t''),
      \<lparr>handler = Some \<lparr>deadline = 1000, instructions = 1000\<rparr>\<rparr>) \<and>
   handler (snd (execute
     (\<lambda>sql params c. Inl (OperationalError ''no such table: t'') :: error + string list)
     0 ''select * from t'' () \<lparr>handler = None\<rparr>)) \<noteq> None"
  using execute_error_keeps_handler
    [of "\<lambda>sql params c. Inl (OperationalError ''no such table: t'') :: error + string list"
        "''select * from t''" "()" 0 "\<lparr>handler = None\<rparr>" "OperationalError ''no such table: t''"]
  by simp

subsection \<open>The table view\<close>

lemma partition_loop_first_values:
  "partition_loop (first_values args) acc = partition_loop args acc"
proof (induction args arbitrary: acc)
  case Nil
  then show ?case by (simp add: first_values_def)
next
  case (Cons kv args)
  obtain k vs where kv: "kv = (k, vs)" by (cases kv)
  obtain sp ot where acc: "acc = (sp, ot)" by (cases acc)
  have fv: "first_values ((k, vs) # args) = (k, take 1 vs) # first_values args"
    by (simp add: first_values_def)
  show ?case
    unfolding kv acc fv using Cons.IH by (cases vs) (simp_all)
qed

lemma is_special_code: "is_special key \<longleftrightarrow> prefix ''_'' key \<and> \<not> sublist ''__'' key"
  by (simp add: is_special_def prefix_def sublist_def)

lemma partition_loop_total:
  assumes "\<forall>(k, vs) \<in> set args. vs \<noteq> []"
  shows "\<exists>r. partition_loop args acc = Inr r"
  using assms
proof (induction args arbitrary: acc)
  case Nil
  then show ?case by simp
next
  case (Cons kv args)
  obtain k vs where kv: "kv = (k, vs)" by (cases kv)
  obtain sp ot where acc: "acc = (sp, ot)" by (cases acc)
  from Cons.prems kv obtain v0 vt where vs: "vs = v0 # vt" by (cases vs) auto
  from Cons.prems have rest: "\<forall>(k, vs) \<in> set args. vs \<noteq> []" by simp
  show ?case
    unfolding kv acc vs using Cons.IH[OF rest] by simp
qed

lemma partition_loop_untouched:
  assumes "key \<notin> fst ` set args" and "partition_loop args (sp, ot) = Inr (sp', ot')"
  shows "map_of sp' key = map_of sp key \<and> map_of ot' key = map_of ot key"
  using assms
proof (induction args arbitrary: sp ot)
  case Nil
  then show ?case by simp
next
  case (Cons kv args)
  obtain k vs where kv: "kv = (k, vs)" by (cases kv)
  from Cons.prems kv have ne: "k \<noteq> key" and rest: "key \<notin> fst ` set args" by auto
  from Cons.prems(2) kv obtain v0 vt where vs: "vs = v0 # vt" by (cases vs) auto
  show ?case
  proof (cases "prefix ''_'' k \<and> \<not> sublist ''__'' k")
    case True
    with Cons.prems(2) kv vs
    have "partition_loop args (dict_set sp k v0, ot) = Inr (sp', ot')" by simp
    from Cons.IH[OF rest this] ne show ?thesis by (simp add: map_of_dict_set)
  next
    case False
    with Cons.prems(2) kv vs
    have "partition_loop args (sp, dict_set ot k v0) = Inr (sp', ot')" by auto
    from Cons.IH[OF rest this] ne show ?thesis by (simp add: map_of_dict_set)
  qed
qed

lemma partition_loop_first:
  assumes "distinct (map fst args)" and "(key, v # vs) \<in> set args"
    and "partition_loop args (sp, ot) = Inr (sp', ot')"
  shows "if is_special key
         then map_of sp' key = Some v \<and> map_of ot' key = map_of ot key
         else map_of ot' key = Some v \<and> map_of sp' key = map_of sp key"
  using assms
proof (induction args arbitrary: sp ot)
  case Nil
  then show ?case by simp
next
  case (Cons kv args)
  obtain k ws where kv: "kv = (k, ws)" by (cases kv)
  from Cons.prems(3) kv obtain w0 wt where ws: "ws = w0 # wt" by (cases ws) auto
  from Cons.prems(1) kv have dist: "distinct (map fst args)" and fresh: "k \<notin> fst ` set args"
    by auto
  show ?case
  proof (cases "k = key")
    case True
    with fresh Cons.prems(2) kv have "ws = v # vs" by force
    with ws have w0: "w0 = v" by simp
    from True fresh have nk: "key \<notin> fst ` set args" by simp
    show ?thesis
    proof (cases "is_special key")
      case sp: True
      with Cons.prems(3) kv ws True w0
      have "partition_loop args (dict_set sp key v, ot) = Inr (sp', ot')"
        by (simp add: is_special_code)
      from partition_loop_untouched[OF nk this] sp show ?thesis
        by (simp add: map_of_dict_set)
    next
      case nsp: False
      with Cons.prems(3) kv ws True w0
      have "partition_loop args (sp, dict_set ot key v) = Inr (sp', ot')"
        by (auto simp: is_special_code)
      from partition_loop_untouched[OF nk this] nsp show ?thesis
        by (simp add: map_of_dict_set)
    qed
  next
    case False
    with Cons.prems(2) kv have mem: "(key, v # vs) \<in> set args" by auto
    show ?thesis
    proof (cases "prefix ''_'' k \<and> \<not> sublist ''__'' k")
      case True
      with Cons.prems(3) kv ws
      have "partition_loop args (dict_set sp k w0, ot) = Inr (sp', ot')" by simp
      from Cons.IH[OF dist mem this] False show ?thesis
        by (simp add: map_of_dict_set)
    next
      case nsp: False
      with Cons.prems(3) kv ws
      have "partition_loop args (sp, dict_set ot k w0) = Inr (sp', ot')" by auto
      from Cons.IH[OF dist mem this] False show ?thesis
        by (simp add: map_of_dict_set)
    qed
  qed
qed

lemma after_loop_eq:
  "after_loop n items (wc, ps) =
     (wc @ map (\<lambda>(j, kv). render_gt (Gt (fst kv) (param_name j))) (enumerate n items),
      foldl (\<lambda>d (j, kv). dict_set d (param_name j) (PStr (snd kv))) ps (enumerate n items))"
proof (induction items arbitrary: n wc ps)
  case Nil
  then show ?case by simp
next
  case (Cons kv items)
  obtain pk v where kv: "kv = (pk, v)" by (cases kv)
  show ?case by (simp add: kv Cons.IH param_name_def)
qed

lemma apply_after_keeps:
  assumes "j < length ps"
  shows "map_of (snd (apply_after pks use_rowid a (wc, ps))) (param_name j) =
         map_of ps (param_name j)"
proof (cases a)
  case None
  then show ?thesis by (simp add: apply_after_def)
next
  case (Some x)
  show ?thesis
  proof (cases "x = []")
    case True
    then show ?thesis by (simp add: apply_after_def Some)
  next
    case ne: False
    show ?thesis
    proof (cases use_rowid)
      case True
      then show ?thesis using assms ne
        by (simp add: apply_after_def Some map_of_dict_set)
    next
      case False
      show ?thesis
      proof (cases "length (compound_pks_from_path x) = length pks")
        case True
        then have "apply_after pks use_rowid a (wc, ps) =
            after_loop (length ps) (zip pks (compound_pks_from_path x)) (wc, ps)"
          using False ne by (simp add: apply_after_def Some Let_def)
        then show ?thesis
          unfolding after_loop_eq using assms
          by (simp add: params_fold_lookup)
      next
        case nl: False
        then show ?thesis using False ne by (simp add: apply_after_def Some Let_def)
      qed
    qed
  qed
qed

lemma filter_first_keys:
  "map fst (filter_first args) = filter (\<lambda>k. \<not> is_special k) (map fst args)"
proof (induction args)
  case Nil
  then show ?case by (simp add: filter_first_def)
next
  case (Cons kv args)
  obtain k ws where kv: "kv = (k, ws)" by (cases kv)
  have "filter_first ((k, ws) # args) =
      (if is_special k then [] else [(k, hd ws)]) @ filter_first args"
    by (simp add: filter_first_def)
  then show ?case using Cons.IH unfolding kv by simp
qed

lemma dict_set_fresh: "k \<notin> fst ` set d \<Longrightarrow> dict_set d k v = d @ [(k, v)]"
  by (simp add: dict_set_def)

lemma partition_loop_first_lists:
  assumes "distinct (map fst args)"
    and "\<forall>(k, vs) \<in> set args. vs \<noteq> []"
    and "fst ` set sp \<inter> fst ` set args = {}"
    and "fst ` set ot \<inter> fst ` set args = {}"
  shows "partition_loop args (sp, ot) = Inr (sp @ special_first args, ot @ filter_first args)"
  using assms
proof (induction args arbitrary: sp ot)
  case Nil
  then show ?case by (simp add: special_first_def filter_first_def)
next
  case (Cons kv args)
  obtain k ws where kv: "kv = (k, ws)" by (cases kv)
  from Cons.prems(2) kv obtain w0 wt where ws: "ws = w0 # wt" by (cases ws) auto
  from Cons.prems(1) kv have dist: "distinct (map fst args)" and fresh: "k \<notin> fst ` set args"
    by auto
  from Cons.prems(2) have ne: "\<forall>(k, vs) \<in> set args. vs \<noteq> []" by simp
  from Cons.prems(3) kv have ksp: "k \<notin> fst ` set sp" and sp: "fst ` set sp \<inter> fst ` set args = {}"
    by auto
  from Cons.prems(4) kv have kot: "k \<notin> fst ` set ot" and ot: "fst ` set ot \<inter> fst ` set args = {}"
    by auto
  show ?case
  proof (cases "is_special k")
    case True
    have d: "fst ` set (sp @ [(k, w0)]) \<inter> fst ` set args = {}"
      using sp fresh by auto
    have s: "special_first (kv # args) = (k, w0) # special_first args"
      using True by (simp add: special_first_def kv ws)
    have f: "filter_first (kv # args) = filter_first args"
      using True by (simp add: filter_first_def kv ws)
    have "partition_loop (kv # args) (sp, ot) = partition_loop args (sp @ [(k, w0)], ot)"
      using True by (simp add: kv ws is_special_code dict_set_fresh[OF ksp])
    also have "\<dots> = Inr ((sp @ [(k, w0)]) @ special_first args, ot @ filter_first args)"
      by (rule Cons.IH[OF dist ne d ot])
    finally show ?thesis by (simp add: s f)
  next
    case False
    have d: "fst ` set (ot @ [(k, w0)]) \<inter> fst ` set args = {}"
      using ot fresh by auto
    have s: "special_first (kv # args) = special_first args"
      using False by (simp add: special_first_def kv ws)
    have f: "filter_first (kv # args) = (k, w0) # filter_first args"
      using False by (simp add: filter_first_def kv ws)
    have "partition_loop (kv # args) (sp, ot) = partition_loop args (sp, ot @ [(k, w0)])"
      using False by (auto simp: kv ws is_special_code dict_set_fresh[OF kot])
    also have "\<dots> = Inr (sp @ special_first args, (ot @ [(k, w0)]) @ filter_first args)"
      by (rule Cons.IH[OF dist ne sp d])
    finally show ?thesis by (simp add: s f)
  qed
qed

lemma special_first_lookup:
  assumes "distinct (map fst args)" and "is_special key"
  shows "map_of (special_first args) key = map_option hd (map_of args key)"
  using assms(1)
proof (induction args)
  case Nil
  then show ?case by (simp add: special_first_def)
next
  case (Cons kv args)
  obtain k ws where kv: "kv = (k, ws)" by (cases kv)
  from Cons.prems have dist: "distinct (map fst args)" by simp
  have ih: "map_of (special_first args) key = map_option hd (map_of args key)"
    by (rule Cons.IH[OF dist])
  show ?case
  proof (cases "is_special k")
    case True
    then have s: "special_first ((k, ws) # args) = (k, hd ws) # special_first args"
      by (simp add: special_first_def)
    show ?thesis using ih unfolding kv s by simp
  next
    case False
    then have s: "special_first ((k, ws) # args) = special_first args"
      by (simp add: special_first_def)
    from False assms(2) have "k \<noteq> key" by auto
    then show ?thesis using ih unfolding kv s by simp
  qed
qed

text \<open>
  C10. For request arguments in which every key has at least one value: the special
  arguments are the keys that start with \<^verbatim>\<open>_\<close> and contain no \<^verbatim>\<open>__\<close>, each with its
  first value, and the arguments of the WHERE-clause builder are the other keys, each with
  its first value, so that a key with the values \<open>v # vs\<close> is bound to \<open>v\<close> in the
  one and absent from the other. The statement and the parameters of the table view are
  those that the builder gives for the other keys with their first values, with the cursor
  of the first value of \<^verbatim>\<open>_after\<close>; they are those of the request in which every key
  has only its first value. When the table view gives a statement, the parameter of the
  clause of a key that is not special is bound to the first value of the key, after its
  transform.
\<close>

theorem table_view_first_value_only:
  assumes "distinct (map fst args)"
    and "\<forall>(k, vs) \<in> set args. vs \<noteq> []"
    and "(key, v # vs) \<in> set args"
  shows "table_query py table pks is_view page_size args =
           table_query py table pks is_view page_size (first_values args) \<and>
         partition_args args = Inr (special_first args, filter_first args) \<and>
         (if is_special key
          then (key, v) \<in> set (special_first args) \<and>
               map_of (special_first args) key = Some v \<and>
               map_of (filter_first args) key = None
          else (key, v) \<in> set (filter_first args) \<and>
               map_of (filter_first args) key = Some v \<and>
               map_of (special_first args) key = None) \<and>
         table_query py table pks is_view page_size args =
           (case (if filter_first args = [] then Inr ([], [])
                  else build_where_clauses py (filter_first args)) of
              Inl e \<Rightarrow> Inl e
            | Inr wp \<Rightarrow>
                (case apply_after pks (pks = [] \<and> \<not> is_view)
                        (map_option hd (map_of args ''_after'')) wp of
                   (where_clauses, params) \<Rightarrow>
                     Inr (table_sql (if pks = [] \<and> \<not> is_view then ''rowid, *'' else ''*'') table
                            where_clauses
                            (if is_view then [] else if pks = [] then ''rowid''
                             else join '', '' pks)
                            page_size,
                          params))) \<and>
         (\<forall>sql params.
            table_query py table pks is_view page_size args = Inr (sql, params) \<and>
            \<not> is_special key \<longrightarrow>
            (\<exists>column lookup p.
               is_split key column lookup \<and>
               spec_value py lookup v = Some p \<and>
               map_of params (''p'' @ str_nat (rank key (filter_first args))) = Some p))"
proof -
  have a: "table_query py table pks is_view page_size args =
           table_query py table pks is_view page_size (first_values args)"
    by (simp add: table_query_def partition_args_def partition_loop_first_values)
  have p: "partition_args args = Inr (special_first args, filter_first args)"
    unfolding partition_args_def
    using partition_loop_first_lists[OF assms(1) assms(2), of "[]" "[]"] by simp
  then have r: "partition_loop args ([], []) = Inr (special_first args, filter_first args)"
    by (simp add: partition_args_def)
  from partition_loop_first[OF assms(1) assms(3) r]
  have m: "if is_special key
        then map_of (special_first args) key = Some v \<and> map_of (filter_first args) key = None
        else map_of (filter_first args) key = Some v \<and> map_of (special_first args) key = None"
    by simp
  then have b: "if is_special key
          then (key, v) \<in> set (special_first args) \<and>
               map_of (special_first args) key = Some v \<and>
               map_of (filter_first args) key = None
          else (key, v) \<in> set (filter_first args) \<and>
               map_of (filter_first args) key = Some v \<and>
               map_of (special_first args) key = None"
    by (auto dest: map_of_SomeD)
  have sp: "is_special ''_after''" unfolding is_special_code by code_simp
  have af: "map_of (special_first args) ''_after'' = map_option hd (map_of args ''_after'')"
    by (rule special_first_lookup[OF assms(1) sp])
  have c: "table_query py table pks is_view page_size args =
           (case (if filter_first args = [] then Inr ([], [])
                  else build_where_clauses py (filter_first args)) of
              Inl e \<Rightarrow> Inl e
            | Inr wp \<Rightarrow>
                (case apply_after pks (pks = [] \<and> \<not> is_view)
                        (map_option hd (map_of args ''_after'')) wp of
                   (where_clauses, params) \<Rightarrow>
                     Inr (table_sql (if pks = [] \<and> \<not> is_view then ''rowid, *'' else ''*'') table
                            where_clauses
                            (if is_view then [] else if pks = [] then ''rowid''
                             else join '', '' pks)
                            page_size,
                          params)))"
    unfolding table_query_def Let_def p af[symmetric]
    by (cases "filter_first args = []") (auto split: sum.splits prod.splits)
  have d: "\<exists>column lookup p.
               is_split key column lookup \<and>
               spec_value py lookup v = Some p \<and>
               map_of params (''p'' @ str_nat (rank key (filter_first args))) = Some p"
    if h: "table_query py table pks is_view page_size args = Inr (sql, params) \<and>
           \<not> is_special key"
    for sql params
  proof -
    from h b have mem: "(key, v) \<in> set (filter_first args)" by simp
    then have ne: "filter_first args \<noteq> []" by auto
    have dist: "distinct (map fst (filter_first args))"
      unfolding filter_first_keys using assms(1) by (rule distinct_filter)
    from h c ne obtain bits ps0 where
      bw: "build_where_clauses py (filter_first args) = Inr (bits, ps0)"
      and pr: "params = snd (apply_after pks (pks = [] \<and> \<not> is_view)
                  (map_option hd (map_of args ''_after'')) (bits, ps0))"
      by (auto split: sum.splits prod.splits)
    let ?r = "rank key (filter_first args)"
    from build_where_clauses_item[OF dist bw mem] obtain column lookup p where
      keys: "map fst ps0 = map param_name [0..<length (filter_first args)]"
      and r: "?r < length (filter_first args)"
      and sp: "is_split key column lookup"
      and sv: "spec_value py lookup v = Some p"
      and q: "map_of ps0 (''p'' @ str_nat ?r) = Some p"
      by blast
    from keys have "length ps0 = length (filter_first args)"
      by (metis length_map diff_zero length_upt)
    with r have "?r < length ps0" by simp
    from apply_after_keeps[OF this] q
    have "map_of params (''p'' @ str_nat ?r) = Some p"
      unfolding pr by (simp add: param_name_def)
    with sp sv show ?thesis by blast
  qed
  from a p b c d show ?thesis by blast
qed

theorem table_view_first_value_only_witness:
  "distinct (map fst [(''_after'', [''5'', ''9'']), (''name'', [''bob'', ''al''])]) \<and>
   [''5'', ''9''] \<noteq> [] \<and> [''bob'', ''al''] \<noteq> [] \<and>
   (''name'', ''bob'' # [''al'']) \<in> set [(''_after'', [''5'', ''9'']), (''name'', [''bob'', ''al''])] \<and>
   partition_args [(''_after'', [''5'', ''9'']), (''name'', [''bob'', ''al''])] =
     Inr ([(''_after'', ''5'')], [(''name'', ''bob'')]) \<and>
   table_query latin1 ''t'' [''id''] False 50
       [(''_after'', [''5'', ''9'']), (''name'', [''bob'', ''al''])] =
     Inr (''select * from '' @ [dq] @ ''t'' @ [dq] @ '' where '' @ [dq] @ ''name'' @ [dq] @
          '' = :p0 and '' @ [dq] @ ''id'' @ [dq] @ '' > :p1 order by id limit 51'',
          [(''p0'', PStr ''bob''), (''p1'', PStr ''5'')]) \<and>
   table_query latin1 ''t'' [''id''] False 50
       [(''_after'', [''5'', ''9'']), (''name'', [''bob'', ''al''])] =
   table_query latin1 ''t'' [''id''] False 50 [(''_after'', [''5'']), (''name'', [''bob''])]"
proof -
  let ?args = "[(''_after'', [''5'', ''9'']), (''name'', [''bob'', ''al''])]"
  have d: "distinct (map fst ?args)" by simp
  have n: "\<forall>(k, vs) \<in> set ?args. vs \<noteq> []" by simp
  have m: "(''name'', ''bob'' # [''al'']) \<in> set ?args" by simp
  have sa: "is_special ''_after''" unfolding is_special_code by code_simp
  have sn: "\<not> is_special ''name''" unfolding is_special_code by code_simp
  have s: "special_first ?args = [(''_after'', ''5'')]"
    by (simp add: special_first_def sa sn)
  have f: "filter_first ?args = [(''name'', ''bob'')]"
    by (simp add: filter_first_def sa sn)
  note th = table_view_first_value_only[OF d n m, of latin1 "''t''" "[''id'']" False 50]
  from th have p: "partition_args ?args = Inr ([(''_after'', ''5'')], [(''name'', ''bob'')])"
    unfolding s f by blast
  from th have x: "table_query latin1 ''t'' [''id''] False 50 ?args =
           (case (if filter_first ?args = [] then Inr ([], [])
                  else build_where_clauses latin1 (filter_first ?args)) of
              Inl e \<Rightarrow> Inl e
            | Inr wp \<Rightarrow>
                (case apply_after [''id''] ([''id''] = [] \<and> \<not> False)
                        (map_option hd (map_of ?args ''_after'')) wp of
                   (where_clauses, params) \<Rightarrow>
                     Inr (table_sql (if [''id''] = [] \<and> \<not> False then ''rowid, *'' else ''*'') ''t''
                            where_clauses
                            (if False then [] else if [''id''] = [] then ''rowid''
                             else join '', '' [''id''])
                            50,
                          params)))"
    by blast
  have y: "(case (if [(''name'', ''bob'')] = [] then Inr ([], [])
                  else build_where_clauses latin1 [(''name'', ''bob'')]) of
              Inl e \<Rightarrow> Inl e
            | Inr wp \<Rightarrow>
                (case apply_after [''id''] ([''id''] = [] \<and> \<not> False)
                        (map_option hd (map_of ?args ''_after'')) wp of
                   (where_clauses, params) \<Rightarrow>
                     Inr (table_sql (if [''id''] = [] \<and> \<not> False then ''rowid, *'' else ''*'') ''t''
                            where_clauses
                            (if False then [] else if [''id''] = [] then ''rowid''
                             else join '', '' [''id''])
                            50,
                          params))) =
     Inr (''select * from '' @ [dq] @ ''t'' @ [dq] @ '' where '' @ [dq] @ ''name'' @ [dq] @
          '' = :p0 and '' @ [dq] @ ''id'' @ [dq] @ '' > :p1 order by id limit 51'',
          [(''p0'', PStr ''bob''), (''p1'', PStr ''5'')])"
    by code_simp
  have q: "table_query latin1 ''t'' [''id''] False 50 ?args =
     Inr (''select * from '' @ [dq] @ ''t'' @ [dq] @ '' where '' @ [dq] @ ''name'' @ [dq] @
          '' = :p0 and '' @ [dq] @ ''id'' @ [dq] @ '' > :p1 order by id limit 51'',
          [(''p0'', PStr ''bob''), (''p1'', PStr ''5'')])"
    by (rule trans[OF x[unfolded f] y])
  from th have "table_query latin1 ''t'' [''id''] False 50 ?args =
     table_query latin1 ''t'' [''id''] False 50 (first_values ?args)"
    by blast
  then have e: "table_query latin1 ''t'' [''id''] False 50 ?args =
     table_query latin1 ''t'' [''id''] False 50 [(''_after'', [''5'']), (''name'', [''bob''])]"
    by (simp add: first_values_def)
  from d m p q e show ?thesis by simp
qed


text \<open>With the page size 0 and one fetched row there is no second-to-last row, and
  \<^verbatim>\<open>rows[-2]\<close> raises.\<close>

lemma table_page_zero_page_size:
  "table_page str 0 pks use_rowid [r] = Inl (IndexError ''list index out of range'')"
  by (simp add: table_page_def second_to_last_def)




subsection \<open>The cursor of the table view\<close>

text \<open>
  What the handler appends for a cursor: when the cursor has as many components as there
  are primary keys, one comparison for each primary key, in their order, and a row
  satisfies them when each of its primary-key values is greater than the component of the
  cursor at the same position; when the counts differ, nothing.
\<close>

lemma sat_all_after:
  assumes "ps' = foldl (\<lambda>d (j, kv). dict_set d (param_name j) (PStr (snd kv))) ps
                   (enumerate n items)"
  shows "sat_all ps' row (map (\<lambda>(j, kv). Gt (fst kv) (param_name j)) (enumerate n items)) \<longleftrightarrow>
         (\<forall>i < length items. \<exists>x. row (fst (items ! i)) = Some x \<and> snd (items ! i) < x)"
proof -
  have look: "map_of ps' (param_name (n + i)) = Some (PStr (snd (items ! i)))"
    if "i < length items" for i
    unfolding assms using that by (subst params_fold_lookup) simp
  have "sat_all ps' row (map (\<lambda>(j, kv). Gt (fst kv) (param_name j)) (enumerate n items)) \<longleftrightarrow>
        (\<forall>i < length items. sat_gt ps' row (Gt (fst (items ! i)) (param_name (n + i))))"
    by (simp add: sat_all_def list_all_length nth_enumerate_eq)
  also have "\<dots> \<longleftrightarrow>
        (\<forall>i < length items. \<exists>x. row (fst (items ! i)) = Some x \<and> snd (items ! i) < x)"
    by (auto simp: look split: option.splits)
  finally show ?thesis .
qed

lemma after_predicate_componentwise:
  assumes "a \<noteq> []" and "length (compound_pks_from_path a) = length pks"
  shows "\<exists>conds ps'.
           apply_after pks False (Some a) (wc, ps) = (wc @ map render_gt conds, ps') \<and>
           length conds = length pks \<and>
           (\<forall>row. sat_all ps' row conds \<longleftrightarrow>
              (\<forall>i < length pks. \<exists>x. row (pks ! i) = Some x \<and> compound_pks_from_path a ! i < x))"
proof -
  let ?vals = "compound_pks_from_path a"
  let ?items = "zip pks ?vals"
  let ?n = "length ps"
  let ?conds = "map (\<lambda>(j, kv). Gt (fst kv) (param_name j)) (enumerate ?n ?items)"
  let ?ps' = "foldl (\<lambda>d (j, kv). dict_set d (param_name j) (PStr (snd kv))) ps
                (enumerate ?n ?items)"
  have len: "length ?items = length pks" using assms(2) by simp
  have "apply_after pks False (Some a) (wc, ps) = after_loop ?n ?items (wc, ps)"
    using assms by (simp add: apply_after_def Let_def)
  also have "\<dots> = (wc @ map render_gt ?conds, ?ps')"
    by (simp add: after_loop_eq comp_def case_prod_beta)
  finally have r: "apply_after pks False (Some a) (wc, ps) = (wc @ map render_gt ?conds, ?ps')" .
  have s: "sat_all ?ps' row ?conds \<longleftrightarrow>
      (\<forall>i < length pks. \<exists>x. row (pks ! i) = Some x \<and> ?vals ! i < x)" for row
    using sat_all_after[OF refl, of ps ?n ?items row] assms(2) by simp
  have "length ?conds = length pks" using len by simp
  with r s show ?thesis by blast
qed

lemma after_count_mismatch:
  assumes "length (compound_pks_from_path a) \<noteq> length pks"
  shows "apply_after pks False (Some a) (wc, ps) = (wc, ps)"
  using assms by (simp add: apply_after_def Let_def)

text \<open>
  C1. The claim is that the appended predicate holds for precisely those rows whose
  primary-key tuple is lexicographically greater than the cursor. For the primary key
  \<^verbatim>\<open>(a, b)\<close> and the cursor \<^verbatim>\<open>a,b\<close> the handler appends
  \<^verbatim>\<open>"a" > :p0 and "b" > :p1\<close> with the parameters \<^verbatim>\<open>a\<close> and \<^verbatim>\<open>b\<close>, and the
  statement orders by \<^verbatim>\<open>a, b\<close>. The row \<^verbatim>\<open>(b, a)\<close> is lexicographically greater than
  the cursor and comes after it in this order, but does not satisfy the predicate.
\<close>

theorem after_predicate_skips_rows:
  "apply_after [''a'', ''b''] False (Some ''a,b'') ([], []) =
     (map render_gt [Gt ''a'' ''p0'', Gt ''b'' ''p1''],
      [(''p0'', PStr ''a''), (''p1'', PStr ''b'')]) \<and>
   compound_pks_from_path ''a,b'' = [''a'', ''b''] \<and>
   pk_tuple [''a'', ''b''] [''a'' \<mapsto> ''b'', ''b'' \<mapsto> ''a''] = [''b'', ''a''] \<and>
   [''a'', ''b''] < [''b'', ''a''] \<and>
   \<not> sat_all [(''p0'', PStr ''a''), (''p1'', PStr ''b'')] [''a'' \<mapsto> ''b'', ''b'' \<mapsto> ''a'']
         [Gt ''a'' ''p0'', Gt ''b'' ''p1''] \<and>
   table_query py ''t'' [''a'', ''b''] False 50 [(''_after'', [''a,b''])] =
     Inr (''select * from '' @ [dq] @ ''t'' @ [dq] @ '' where '' @ [dq] @ ''a'' @ [dq] @
          '' > :p0 and '' @ [dq] @ ''b'' @ [dq] @ '' > :p1 order by a, b limit 51'',
          [(''p0'', PStr ''a''), (''p1'', PStr ''b'')])"
proof -
  have 1: "apply_after [''a'', ''b''] False (Some ''a,b'') ([], []) =
     (map render_gt [Gt ''a'' ''p0'', Gt ''b'' ''p1''],
      [(''p0'', PStr ''a''), (''p1'', PStr ''b'')])"
    by code_simp
  have 2: "compound_pks_from_path ''a,b'' = [''a'', ''b'']" by code_simp
  have 3: "pk_tuple [''a'', ''b''] [''a'' \<mapsto> ''b'', ''b'' \<mapsto> ''a''] = [''b'', ''a'']"
    by (simp add: pk_tuple_def)
  have 4: "[''a'', ''b''] < [''b'', ''a'']" by code_simp
  have 5: "\<not> sat_all [(''p0'', PStr ''a''), (''p1'', PStr ''b'')]
         [''a'' \<mapsto> ''b'', ''b'' \<mapsto> ''a''] [Gt ''a'' ''p0'', Gt ''b'' ''p1'']"
    by (simp add: sat_all_def)
  have 6: "table_query py ''t'' [''a'', ''b''] False 50 [(''_after'', [''a,b''])] =
     Inr (''select * from '' @ [dq] @ ''t'' @ [dq] @ '' where '' @ [dq] @ ''a'' @ [dq] @
          '' > :p0 and '' @ [dq] @ ''b'' @ [dq] @ '' > :p1 order by a, b limit 51'',
          [(''p0'', PStr ''a''), (''p1'', PStr ''b'')])"
    by code_simp
  from 1 2 3 4 5 6 show ?thesis by blast
qed

end
